theory Spec2Isabelle
  imports Main "HOL-Library.Word"
begin

section \<open>JavaScript strings\<close>

text \<open>
  A JavaScript string is a sequence of 16-bit code units. ASCII literals of the source
  are written through \<open>ascii\<close>; the Hebrew marker of the AC sheet is given by its
  code units.
\<close>

type_synonym jsstring = "16 word list"

definition ascii :: "string \<Rightarrow> jsstring" where
  "ascii s = map (\<lambda>c. of_nat (of_char c)) s"

text \<open>Decimal digits of a non-negative integer, as a template literal prints it.\<close>

function decimal :: "nat \<Rightarrow> jsstring" where
  "decimal n = (if n < 10 then [of_nat (48 + n)] else decimal (n div 10) @ [of_nat (48 + n mod 10)])"
  by pat_completeness auto
termination
  by (relation "measure (\<lambda>n. n)") auto

declare decimal.simps [simp del]

definition decimalInt :: "int \<Rightarrow> jsstring" where
  "decimalInt i = (if i < 0 then ascii ''-'' @ decimal (nat (- i)) else decimal (nat i))"

text \<open>
  \<open>String.prototype.trim\<close> strips the code units of WhiteSpace and LineTerminator
  from both ends.
\<close>

definition isWhiteSpace :: "16 word \<Rightarrow> bool" where
  "isWhiteSpace c \<longleftrightarrow>
     c \<in> {0x0009, 0x000A, 0x000B, 0x000C, 0x000D, 0x0020, 0x00A0, 0x1680, 0x2028, 0x2029,
          0x202F, 0x205F, 0x3000, 0xFEFF} \<or> (0x2000 \<le> c \<and> c \<le> 0x200A)"

definition trim :: "jsstring \<Rightarrow> jsstring" where
  "trim s = rev (dropWhile isWhiteSpace (rev (dropWhile isWhiteSpace s)))"

definition isDigit :: "16 word \<Rightarrow> bool" where
  "isDigit c \<longleftrightarrow> 0x0030 \<le> c \<and> c \<le> 0x0039"

text \<open>The regular expression \<open>/^\d+\.\d+$/\<close>: digits, a dot, digits, and nothing else.\<close>

definition matchesCode :: "jsstring \<Rightarrow> bool" where
  "matchesCode s =
     (takeWhile isDigit s \<noteq> [] \<and>
      (case dropWhile isDigit s of
         [] \<Rightarrow> False
       | d # frac \<Rightarrow> d = 0x002E \<and> frac \<noteq> [] \<and> list_all isDigit frac))"

definition startsWith :: "jsstring \<Rightarrow> jsstring \<Rightarrow> bool" where
  "startsWith s p = (take (length p) s = p)"

text \<open>Truthiness of an optional string: neither undefined nor empty.\<close>

definition truthy :: "jsstring option \<Rightarrow> bool" where
  "truthy v = (case v of None \<Rightarrow> False | Some s \<Rightarrow> s \<noteq> [])"

text \<open>\<open>xs.find(p)\<close>\<close>

fun findFirst :: "('a \<Rightarrow> bool) \<Rightarrow> 'a list \<Rightarrow> 'a option" where
  "findFirst p [] = None"
| "findFirst p (x # xs) = (if p x then Some x else findFirst p xs)"

text \<open>An object found by \<open>find\<close> is mutated in place: the first match changes.\<close>

fun updateFirst :: "('a \<Rightarrow> bool) \<Rightarrow> ('a \<Rightarrow> 'a) \<Rightarrow> 'a list \<Rightarrow> 'a list" where
  "updateFirst p f [] = []"
| "updateFirst p f (x # xs) = (if p x then f x # xs else x # updateFirst p f xs)"

text \<open>
  \<open>Array.from({ length: n }, ...)\<close> builds an array of \<open>n\<close> elements, the empty array for
  a negative \<open>n\<close>. An array has fewer than \<open>2\<^sup>3\<^sup>2\<close> elements: with a greater length the
  call ends in a RangeError, here \<open>None\<close>.
\<close>

definition arrayLength :: "int \<Rightarrow> nat option" where
  "arrayLength n = (if n < 4294967296 then Some (nat n) else None)"

section \<open>The inspection data model\<close>

text \<open>
  Modelled from the spec: the type declarations of \<open>models/inspection\<close> (InspectionMeta,
  InverterConfig, ChecklistItem, DcStringMeasurement, AcMeasurement, InverterSerial, Defect,
  Inspection) are not among the sources. The records follow the data model of the
  specification and the fields that the store and the exporter read and write. Numbers are
  integers; a field that may be undefined or null is an option.
\<close>

record inspection_meta =
  siteName :: jsstring
  inspectionDate :: jsstring
  inspectorName :: jsstring
  signatureText :: "jsstring option"

record inverter_config =
  index :: int
  label :: jsstring
  stringCount :: int

record checklist_item =
  sectionCode :: jsstring
  description :: jsstring
  status :: "jsstring option"
  itemNotes :: "jsstring option"

record dc_measurement =
  dcId :: jsstring
  parentId :: "jsstring option"
  inverterIndex :: int
  stringLabel :: jsstring
  panelCount :: "int option"
  openCircuitVoltage :: "int option"
  operatingCurrent :: "int option"
  stringRiso :: "int option"
  feedRisoNegative :: "int option"
  feedRisoPositive :: "int option"

text \<open>What \<open>setCell\<close> accepts: \<open>string | number | undefined\<close>.\<close>

datatype jsvalue = JUndefined | JString jsstring | JNumber int

record ac_measurement =
  itemCode :: jsstring
  result :: jsvalue
  acNotes :: "jsstring option"

record inverter_serial =
  serialInverterIndex :: int
  serialNumber :: jsstring

record defect =
  component :: jsstring
  fault :: jsstring
  location :: jsstring
  defectStatus :: jsstring

record inspection =
  meta :: inspection_meta
  inverterConfigs :: "inverter_config list"
  checklist :: "checklist_item list"
  dcMeasurements :: "dc_measurement list"
  acMeasurements :: "ac_measurement list"
  inverterSerials :: "inverter_serial list"
  defects :: "defect list"

section \<open>The inspection store\<close>

text \<open>
  \<open>crypto.randomUUID()\<close> is the environment's: an operation that draws identifiers takes
  them as an argument (one identifier, or the sequence \<open>uuid 0, uuid 1, ...\<close> in the order
  of the draws). \<open>save()\<close> writes the report to local storage and does not change the
  inspection; it is left out.
\<close>

definition STRING_LABELS :: jsstring where
  "STRING_LABELS = ascii ''ABCDEFGHIJKLMNOPQRSTUVWXYZ''"

definition createDcMeasurement ::
  "jsstring \<Rightarrow> int \<Rightarrow> jsstring \<Rightarrow> jsstring option \<Rightarrow> dc_measurement" where
  "createDcMeasurement uid inverter lbl parent =
     \<lparr>dcId = uid, parentId = parent, inverterIndex = inverter, stringLabel = lbl,
      panelCount = None, openCircuitVoltage = None, operatingCurrent = None,
      stringRiso = None, feedRisoNegative = None, feedRisoPositive = None\<rparr>"

text \<open>\<open>STRING_LABELS[i] || `S${i + 1}`\<close>\<close>

definition stringLabelAt :: "nat \<Rightarrow> jsstring" where
  "stringLabelAt i =
     (if i < length STRING_LABELS then [STRING_LABELS ! i] else ascii ''S'' @ decimal (i + 1))"

text \<open>
  \<open>configs.flatMap(inv => Array.from({ length: inv.stringCount }, (_, i) => ...))\<close>;
  \<open>k\<close> counts the identifiers drawn so far. The result is \<open>None\<close> when \<open>Array.from\<close>
  throws for one of the configurations.
\<close>

fun generateDcMeasurementsFrom ::
  "(nat \<Rightarrow> jsstring) \<Rightarrow> nat \<Rightarrow> inverter_config list \<Rightarrow> dc_measurement list option" where
  "generateDcMeasurementsFrom uuid k [] = Some []"
| "generateDcMeasurementsFrom uuid k (inverter # configs) =
     (case arrayLength (stringCount inverter) of
        None \<Rightarrow> None
      | Some n \<Rightarrow>
          (case generateDcMeasurementsFrom uuid (k + n) configs of
             None \<Rightarrow> None
           | Some later \<Rightarrow>
               Some (map (\<lambda>i. createDcMeasurement (uuid (k + i)) (index inverter)
                                (stringLabelAt i) None) [0..<n]
                     @ later)))"

definition generateDcMeasurements ::
  "(nat \<Rightarrow> jsstring) \<Rightarrow> inverter_config list \<Rightarrow> dc_measurement list option" where
  "generateDcMeasurements uuid configs = generateDcMeasurementsFrom uuid 0 configs"

definition childrenOf :: "dc_measurement list \<Rightarrow> jsstring option \<Rightarrow> dc_measurement list" where
  "childrenOf forInverter parent = filter (\<lambda>m. parentId m = parent) forInverter"

text \<open>
  \<open>walk\<close> pushes onto the shared \<open>result\<close> array and calls itself for every child. The
  first argument is the call-stack depth left: a recursion deeper than the engine's stack
  ends in a RangeError, here \<open>None\<close>.
\<close>

fun walk ::
    "nat \<Rightarrow> dc_measurement list \<Rightarrow> jsstring option \<Rightarrow> nat \<Rightarrow>
     (dc_measurement \<times> nat) list \<Rightarrow> (dc_measurement \<times> nat) list option"
  and walkEach ::
    "nat \<Rightarrow> dc_measurement list \<Rightarrow> dc_measurement list \<Rightarrow> nat \<Rightarrow>
     (dc_measurement \<times> nat) list \<Rightarrow> (dc_measurement \<times> nat) list option"
where
  "walk 0 forInverter parent depth res = None"
| "walk (Suc stack) forInverter parent depth res =
     walkEach stack forInverter (childrenOf forInverter parent) depth res"
| "walkEach stack forInverter [] depth res = Some res"
| "walkEach stack forInverter (m # ms) depth res =
     (case walk stack forInverter (Some (dcId m)) (depth + 1) (res @ [(m, depth)]) of
        None \<Rightarrow> None
      | Some res' \<Rightarrow> walkEach stack forInverter ms depth res')"

definition forInverter :: "dc_measurement list \<Rightarrow> int \<Rightarrow> dc_measurement list" where
  "forInverter measurements inverter = filter (\<lambda>m. inverterIndex m = inverter) measurements"

definition getOrderedDcTree ::
  "nat \<Rightarrow> dc_measurement list \<Rightarrow> int \<Rightarrow> (dc_measurement \<times> nat) list option" where
  "getOrderedDcTree stack measurements inverter =
     walk stack (forInverter measurements inverter) None 0 []"

text \<open>\<open>getDescendantIds\<close>, recursive in the same way.\<close>

fun getDescendantIds :: "nat \<Rightarrow> dc_measurement list \<Rightarrow> jsstring \<Rightarrow> jsstring list option"
  and descendEach ::
    "nat \<Rightarrow> dc_measurement list \<Rightarrow> jsstring \<Rightarrow> dc_measurement list \<Rightarrow> jsstring list \<Rightarrow>
     jsstring list option"
where
  "getDescendantIds 0 measurements parent = None"
| "getDescendantIds (Suc stack) measurements parent =
     descendEach stack measurements parent measurements []"
| "descendEach stack measurements parent [] ids = Some ids"
| "descendEach stack measurements parent (m # ms) ids =
     (if parentId m = Some parent
      then (case getDescendantIds stack measurements (dcId m) of
              None \<Rightarrow> None
            | Some sub \<Rightarrow> descendEach stack measurements parent ms (ids @ [dcId m] @ sub))
      else descendEach stack measurements parent ms ids)"

definition nextChildLabel :: "dc_measurement list \<Rightarrow> jsstring \<Rightarrow> jsstring \<Rightarrow> jsstring" where
  "nextChildLabel measurements parent parentLabel =
     (let siblings = filter (\<lambda>m. parentId m = Some parent) measurements
      in parentLabel @ ascii ''.'' @ decimal (length siblings + 1))"

definition nextTopLevelLabel :: "dc_measurement list \<Rightarrow> int \<Rightarrow> jsstring" where
  "nextTopLevelLabel measurements inverter =
     (let topLevel = filter (\<lambda>m. inverterIndex m = inverter \<and> parentId m = None) measurements;
          usedLetters = set (map stringLabel topLevel)
      in case findFirst (\<lambda>c. [c] \<notin> usedLetters) STRING_LABELS of
           Some c \<Rightarrow> [c]
         | None \<Rightarrow> ascii ''S'' @ decimal (length topLevel + 1))"

definition generateInverterSerials :: "inverter_config list \<Rightarrow> inverter_serial list" where
  "generateInverterSerials configs =
     map (\<lambda>inverter. \<lparr>serialInverterIndex = index inverter, serialNumber = []\<rparr>) configs"

text \<open>The default inverter label: the Hebrew word for inverter, a space, the number.\<close>

definition defaultInverterLabel :: "nat \<Rightarrow> jsstring" where
  "defaultInverterLabel i = [0x05DE, 0x05DE, 0x05D9, 0x05E8, 0x0020] @ decimal (i + 1)"

definition nthOpt :: "'a list \<Rightarrow> nat \<Rightarrow> 'a option" where
  "nthOpt xs i = (if i < length xs then Some (xs ! i) else None)"

text \<open>
  An operation of the store that builds arrays either returns or ends in the RangeError of
  \<open>Array.from\<close>; either way it leaves the inspection in a state, which after an
  exception holds the assignments made before it.
\<close>

datatype outcome = Returns inspection | Throws inspection

text \<open>
  The configurations that \<open>setInverterConfigs\<close> builds for \<open>n\<close> inverters: the callback
  of its \<open>Array.from\<close>, with \<open>existing[i]?.label ?? ...\<close> and
  \<open>existing[i]?.stringCount ?? defaultStrings\<close>.
\<close>

definition newConfigs :: "nat \<Rightarrow> int \<Rightarrow> inverter_config list \<Rightarrow> inverter_config list" where
  "newConfigs n defaultStrings existing =
     map (\<lambda>i.
         \<lparr>index = int i + 1,
          label = (case nthOpt existing i of Some e \<Rightarrow> label e
                   | None \<Rightarrow> defaultInverterLabel i),
          stringCount = (case nthOpt existing i of Some e \<Rightarrow> stringCount e
                   | None \<Rightarrow> defaultStrings)\<rparr>)
       [0..<n]"

text \<open>
  \<open>setInverterConfigs\<close> assigns \<open>inverterConfigs\<close>, then \<open>dcMeasurements\<close>, then
  \<open>inverterSerials\<close>: when the inverter count is no array length nothing is assigned, and
  when a string count is none the configurations are assigned and nothing else.
\<close>

definition setInverterConfigs ::
  "(nat \<Rightarrow> jsstring) \<Rightarrow> int \<Rightarrow> int \<Rightarrow> inspection \<Rightarrow> outcome" where
  "setInverterConfigs uuid count defaultStrings insp =
     (let existing = inverterConfigs insp
      in case arrayLength count of
           None \<Rightarrow> Throws insp
         | Some n \<Rightarrow>
             (let configs = newConfigs n defaultStrings existing;
                  insp1 = insp\<lparr>inverterConfigs := configs\<rparr>
              in case generateDcMeasurements uuid configs of
                   None \<Rightarrow> Throws insp1
                 | Some measurements \<Rightarrow>
                     Returns (insp1\<lparr>dcMeasurements := measurements,
                                    inverterSerials := generateInverterSerials configs\<rparr>)))"

text \<open>\<open>Partial<InverterConfig>\<close> and \<open>Object.assign(config, updates)\<close>\<close>

record inverter_config_updates =
  newIndex :: "int option"
  newLabel :: "jsstring option"
  newStringCount :: "int option"

definition assignConfig :: "inverter_config_updates \<Rightarrow> inverter_config \<Rightarrow> inverter_config" where
  "assignConfig u c =
     \<lparr>index = (case newIndex u of Some i \<Rightarrow> i | None \<Rightarrow> index c),
      label = (case newLabel u of Some l \<Rightarrow> l | None \<Rightarrow> label c),
      stringCount = (case newStringCount u of Some n \<Rightarrow> n | None \<Rightarrow> stringCount c)\<rparr>"

text \<open>
  \<open>updateInverterConfig\<close> changes the configuration in place before it regenerates: when
  \<open>Array.from\<close> throws, the changed configuration stays with the measurements and the
  serials as they were.
\<close>

definition updateInverterConfig ::
  "(nat \<Rightarrow> jsstring) \<Rightarrow> int \<Rightarrow> inverter_config_updates \<Rightarrow> inspection \<Rightarrow> outcome" where
  "updateInverterConfig uuid idx updates insp =
     (case findFirst (\<lambda>c. index c = idx) (inverterConfigs insp) of
        None \<Rightarrow> Returns insp
      | Some config \<Rightarrow>
          (let configs = updateFirst (\<lambda>c. index c = idx) (assignConfig updates)
                           (inverterConfigs insp);
               insp1 = insp\<lparr>inverterConfigs := configs\<rparr>
           in case generateDcMeasurements uuid configs of
                None \<Rightarrow> Throws insp1
              | Some measurements \<Rightarrow>
                  Returns (insp1\<lparr>dcMeasurements := measurements,
                                 inverterSerials := generateInverterSerials configs\<rparr>)))"

text \<open>
  \<open>Partial<DcStringMeasurement>\<close>: every field may be given; a numeric field may be given
  as undefined.
\<close>

record dc_updates =
  newDcId :: "jsstring option"
  newParentId :: "jsstring option option"
  newInverterIndex :: "int option"
  newStringLabel :: "jsstring option"
  newPanelCount :: "int option option"
  newOpenCircuitVoltage :: "int option option"
  newOperatingCurrent :: "int option option"
  newStringRiso :: "int option option"
  newFeedRisoNegative :: "int option option"
  newFeedRisoPositive :: "int option option"

definition orKeep :: "'a option \<Rightarrow> 'a \<Rightarrow> 'a" where
  "orKeep u old = (case u of Some v \<Rightarrow> v | None \<Rightarrow> old)"

definition assignDc :: "dc_updates \<Rightarrow> dc_measurement \<Rightarrow> dc_measurement" where
  "assignDc u m =
     \<lparr>dcId = orKeep (newDcId u) (dcId m),
      parentId = orKeep (newParentId u) (parentId m),
      inverterIndex = orKeep (newInverterIndex u) (inverterIndex m),
      stringLabel = orKeep (newStringLabel u) (stringLabel m),
      panelCount = orKeep (newPanelCount u) (panelCount m),
      openCircuitVoltage = orKeep (newOpenCircuitVoltage u) (openCircuitVoltage m),
      operatingCurrent = orKeep (newOperatingCurrent u) (operatingCurrent m),
      stringRiso = orKeep (newStringRiso u) (stringRiso m),
      feedRisoNegative = orKeep (newFeedRisoNegative u) (feedRisoNegative m),
      feedRisoPositive = orKeep (newFeedRisoPositive u) (feedRisoPositive m)\<rparr>"

definition updateDcMeasurement :: "jsstring \<Rightarrow> dc_updates \<Rightarrow> inspection \<Rightarrow> inspection" where
  "updateDcMeasurement ident updates insp =
     insp\<lparr>dcMeasurements :=
       updateFirst (\<lambda>d. dcId d = ident) (assignDc updates) (dcMeasurements insp)\<rparr>"

definition addDcString :: "jsstring \<Rightarrow> int \<Rightarrow> inspection \<Rightarrow> inspection" where
  "addDcString uid inverter insp =
     (let lbl = nextTopLevelLabel (dcMeasurements insp) inverter
      in insp\<lparr>dcMeasurements :=
           dcMeasurements insp @ [createDcMeasurement uid inverter lbl None]\<rparr>)"

text \<open>
  The loop of \<open>addDcSubstring\<close> that counts the nesting of the parent:
  \<open>while (cur.parentId) { depth++; p = find(...); if (!p) break; cur = p; }\<close>.
  It runs as long as parent links can be followed; \<open>None\<close> is a loop that never ends.
\<close>

partial_function (option) nestingDepth ::
  "dc_measurement list \<Rightarrow> dc_measurement \<Rightarrow> nat \<Rightarrow> nat option" where
  "nestingDepth measurements cur depth =
     (if truthy (parentId cur)
      then (case findFirst (\<lambda>m. Some (dcId m) = parentId cur) measurements of
              None \<Rightarrow> Some (depth + 1)
            | Some p \<Rightarrow> nestingDepth measurements p (depth + 1))
      else Some depth)"

definition addDcSubstring :: "jsstring \<Rightarrow> jsstring \<Rightarrow> inspection \<Rightarrow> inspection option" where
  "addDcSubstring uid parent insp =
     (case findFirst (\<lambda>m. dcId m = parent) (dcMeasurements insp) of
        None \<Rightarrow> Some insp
      | Some p \<Rightarrow>
          (case nestingDepth (dcMeasurements insp) p 0 of
             None \<Rightarrow> None
           | Some depth \<Rightarrow>
               if depth \<ge> 2 then Some insp
               else (let lbl = nextChildLabel (dcMeasurements insp) parent (stringLabel p)
                     in Some (insp\<lparr>dcMeasurements := dcMeasurements insp @
                          [createDcMeasurement uid (inverterIndex p) lbl (Some parent)]\<rparr>))))"

definition removeDcMeasurement :: "nat \<Rightarrow> jsstring \<Rightarrow> inspection \<Rightarrow> inspection option" where
  "removeDcMeasurement stack ident insp =
     (case getDescendantIds stack (dcMeasurements insp) ident of
        None \<Rightarrow> None
      | Some ds \<Rightarrow>
          (let idsToRemove = set (ident # ds)
           in Some (insp\<lparr>dcMeasurements :=
                filter (\<lambda>m. dcId m \<notin> idsToRemove) (dcMeasurements insp)\<rparr>)))"

text \<open>
  The operations of the store that assign or change \<open>dcMeasurements\<close>, each with its
  arguments and with what it draws from the environment (identifiers, call-stack depth).
  \<open>applyOp\<close> is the inspection that the operation returns with, and \<open>None\<close> when it
  does not return (it throws, or loops for ever). The other operations of
  the store (meta data, checklist, AC measurements, serials, defects) do not touch the
  measurements.
\<close>

datatype store_op =
    SetInverterConfigs "nat \<Rightarrow> jsstring" int int
  | UpdateInverterConfig "nat \<Rightarrow> jsstring" int inverter_config_updates
  | UpdateDcMeasurement jsstring dc_updates
  | AddDcString jsstring int
  | AddDcSubstring jsstring jsstring
  | RemoveDcMeasurement nat jsstring

fun applyOp :: "store_op \<Rightarrow> inspection \<Rightarrow> inspection option" where
  "applyOp (SetInverterConfigs uuid count defaultStrings) insp =
     (case setInverterConfigs uuid count defaultStrings insp of
        Returns insp' \<Rightarrow> Some insp' | Throws insp' \<Rightarrow> None)"
| "applyOp (UpdateInverterConfig uuid idx updates) insp =
     (case updateInverterConfig uuid idx updates insp of
        Returns insp' \<Rightarrow> Some insp' | Throws insp' \<Rightarrow> None)"
| "applyOp (UpdateDcMeasurement ident updates) insp =
     Some (updateDcMeasurement ident updates insp)"
| "applyOp (AddDcString uid inverter) insp = Some (addDcString uid inverter insp)"
| "applyOp (AddDcSubstring uid parent) insp = addDcSubstring uid parent insp"
| "applyOp (RemoveDcMeasurement stack ident) insp = removeDcMeasurement stack ident insp"

section \<open>The spreadsheet access layer (ExcelJS), as far as the exporter uses it\<close>

text \<open>
  A cell holds a value and a style. The style is the object behind \<open>cell.style\<close>;
  \<open>cell.font\<close>, \<open>cell.alignment\<close>, \<open>cell.border\<close> and \<open>cell.fill\<close>
  read its fields, each possibly undefined (\<open>None\<close>). Font, alignment, border and
  protection objects are opaque property lists: the exporter only copies them
  (\<open>{ ...cell.font }\<close>) or replaces an undefined one by the empty object \<open>{}\<close>.
\<close>

type_synonym jsobj = "(string \<times> string) list"

datatype color = Argb jsstring | ThemeColor jsobj

datatype fill =
    PatternFill (pattern: jsstring) (fgColor: "color option") (bgColor: "color option")
  | GradientFill jsobj

record style =
  numFmt :: "jsstring option"
  font :: "jsobj option"
  alignment :: "jsobj option"
  border :: "jsobj option"
  fill :: "fill option"
  protection :: "jsobj option"

text \<open>
  Cell values: empty (\<open>null\<close>), a string, an integral number, or anything else (a
  fractional number, a date, a formula or rich-text object), which is carried by the text
  that JavaScript's \<open>String(value)\<close> gives for it.
\<close>

datatype cell_value = VNull | VString jsstring | VNumber int | VOther jsstring

record cell =
  cvalue :: cell_value
  cstyle :: style

text \<open>
  A table object of a worksheet; \<open>tname\<close> is what \<open>table.name\<close> reads
  (possibly undefined), \<open>tref\<close> the range the table (and its autofilter) covers.
\<close>

record table =
  tname :: "jsstring option"
  tref :: jsstring

text \<open>
  A merged range of cells, by its first and last row and column. Its top-left cell is the
  master of the range: the other cells of the range have no value of their own, reading
  and writing \<open>cell.value\<close> on one of them reads and writes the master. The ranges of a
  sheet do not overlap.
\<close>

record merged_range =
  topRow :: nat
  leftCol :: nat
  bottomRow :: nat
  rightCol :: nat

text \<open>
  A worksheet: the cell at every (row, column) address, both 1-based (\<open>ws.getCell(r, c)\<close>
  creates an empty cell where there is none, so every address has a cell); the bounding box
  \<open>rowCount\<close> / \<open>colCount\<close> of the cells that hold a value or lie in a merged range,
  which is what \<open>ws.eachRow\<close> walks; the table objects of the sheet; the sheet-level
  autofilter range; the merged ranges.
\<close>

record worksheet =
  cells :: "nat \<Rightarrow> nat \<Rightarrow> cell"
  rowCount :: nat
  colCount :: nat
  tables :: "table list"
  autoFilter :: "jsstring option"
  merges :: "merged_range list"

definition getCell :: "worksheet \<Rightarrow> nat \<Rightarrow> nat \<Rightarrow> cell" where
  "getCell ws r c = cells ws r c"

definition putCell :: "worksheet \<Rightarrow> nat \<Rightarrow> nat \<Rightarrow> cell \<Rightarrow> worksheet" where
  "putCell ws r c x = ws\<lparr>cells := (cells ws)(r := (cells ws r)(c := x))\<rparr>"

text \<open>\<open>cell.style = s\<close>: the cell gets a style object of its own.\<close>

definition setStyle :: "worksheet \<Rightarrow> nat \<Rightarrow> nat \<Rightarrow> style \<Rightarrow> worksheet" where
  "setStyle ws r c s = putCell ws r c ((getCell ws r c)\<lparr>cstyle := s\<rparr>)"

text \<open>
  \<open>cell.master\<close>: the address of the cell that holds the value of the cell at \<open>(r, c)\<close>,
  which is the top-left cell of the merged range that the cell lies in, and the cell itself
  when it lies in none.
\<close>

definition inRange :: "merged_range \<Rightarrow> nat \<Rightarrow> nat \<Rightarrow> bool" where
  "inRange m r c \<longleftrightarrow> topRow m \<le> r \<and> r \<le> bottomRow m \<and> leftCol m \<le> c \<and> c \<le> rightCol m"

definition master :: "worksheet \<Rightarrow> nat \<Rightarrow> nat \<Rightarrow> nat \<times> nat" where
  "master ws r c =
     (case findFirst (\<lambda>m. inRange m r c) (merges ws) of
        None \<Rightarrow> (r, c)
      | Some m \<Rightarrow> (topRow m, leftCol m))"

text \<open>Reading \<open>cell.value\<close>: the value that the master holds.\<close>

definition getValue :: "worksheet \<Rightarrow> nat \<Rightarrow> nat \<Rightarrow> cell_value" where
  "getValue ws r c = (case master ws r c of (mr, mc) \<Rightarrow> cvalue (getCell ws mr mc))"

text \<open>
  \<open>cell.value = v\<close>: the value goes to the master, which for a cell of a merged range is
  another cell; styles stay; the bounding box holds the addressed cell.
\<close>

definition setValue :: "worksheet \<Rightarrow> nat \<Rightarrow> nat \<Rightarrow> cell_value \<Rightarrow> worksheet" where
  "setValue ws r c v =
     (case master ws r c of
        (mr, mc) \<Rightarrow>
          (putCell ws mr mc ((getCell ws mr mc)\<lparr>cvalue := v\<rparr>))
            \<lparr>rowCount := max (rowCount ws) r, colCount := max (colCount ws) c\<rparr>)"

section \<open>The row-stripe baker\<close>

definition solid :: jsstring where
  "solid = ascii ''solid''"

definition stripeEven :: jsstring where
  "stripeEven = ascii ''FFD9E2F3''"

definition stripeOdd :: jsstring where
  "stripeOdd = ascii ''FFB4C6E7''"

text \<open>
  \<open>fill != null && fill.type === 'pattern' && fill.pattern === 'solid'\<close>
\<close>

definition hasSolidFill :: "cell \<Rightarrow> bool" where
  "hasSolidFill x =
     (case fill (cstyle x) of
        None \<Rightarrow> False
      | Some (GradientFill _) \<Rightarrow> False
      | Some (PatternFill p _ _) \<Rightarrow> p = solid)"

text \<open>Phase 1: \<open>for (r = startRow; r <= endRow; r++) if (hasSolidFill(...)) rowHasFill.add(r)\<close>\<close>

function scanFills :: "worksheet \<Rightarrow> nat \<Rightarrow> nat \<Rightarrow> nat set \<Rightarrow> nat set" where
  "scanFills ws r endRow rowHasFill =
     (if r \<le> endRow
      then scanFills ws (Suc r) endRow
             (if hasSolidFill (getCell ws r 1) then insert r rowHasFill else rowHasFill)
      else rowHasFill)"
  by pat_completeness auto
termination
  by (relation "measure (\<lambda>(ws, r, endRow, acc). Suc endRow - r)") auto

declare scanFills.simps [simp del]

text \<open>The style object the baker assigns to a cell.\<close>

definition stripeStyle :: "cell \<Rightarrow> jsstring \<Rightarrow> style" where
  "stripeStyle x col =
     \<lparr>numFmt = None,
      font = Some (case font (cstyle x) of Some f \<Rightarrow> f | None \<Rightarrow> []),
      alignment = Some (case alignment (cstyle x) of Some a \<Rightarrow> a | None \<Rightarrow> []),
      border = Some (case border (cstyle x) of Some b \<Rightarrow> b | None \<Rightarrow> []),
      fill = Some (PatternFill solid (Some (Argb col)) (Some (Argb col))),
      protection = None\<rparr>"

text \<open>The inner loop: \<open>for (c = 1; c <= colCount; c++) cell.style = {...}\<close>\<close>

function stripeRow :: "worksheet \<Rightarrow> nat \<Rightarrow> nat \<Rightarrow> nat \<Rightarrow> jsstring \<Rightarrow> worksheet" where
  "stripeRow ws r c cols col =
     (if c \<le> cols
      then stripeRow (setStyle ws r c (stripeStyle (getCell ws r c) col)) r (Suc c) cols col
      else ws)"
  by pat_completeness auto
termination
  by (relation "measure (\<lambda>(ws, r, c, cols, col). Suc cols - c)") auto

declare stripeRow.simps [simp del]

definition stripeColor :: "nat \<Rightarrow> jsstring" where
  "stripeColor stripeIndex = (if stripeIndex mod 2 = 0 then stripeEven else stripeOdd)"

text \<open>Phase 2: the outer loop, with the running \<open>stripeIndex\<close>.\<close>

function applyStripes ::
  "worksheet \<Rightarrow> nat \<Rightarrow> nat \<Rightarrow> nat \<Rightarrow> nat set \<Rightarrow> nat \<Rightarrow> worksheet" where
  "applyStripes ws r endRow cols rowHasFill stripeIndex =
     (if r \<le> endRow
      then applyStripes
             (if r \<notin> rowHasFill then stripeRow ws r 1 cols (stripeColor stripeIndex) else ws)
             (Suc r) endRow cols rowHasFill (Suc stripeIndex)
      else ws)"
  by pat_completeness auto
termination
  by (relation "measure (\<lambda>(ws, r, endRow, cols, s, i). Suc endRow - r)") auto

declare applyStripes.simps [simp del]

definition bakeTableStripes :: "worksheet \<Rightarrow> nat \<Rightarrow> nat \<Rightarrow> nat \<Rightarrow> worksheet" where
  "bakeTableStripes ws startRow endRow cols =
     applyStripes ws startRow endRow cols (scanFills ws startRow endRow {}) 0"

section \<open>The template exporter: sheet fillers\<close>

text \<open>\<open>String(value ?? '')\<close> of a cell value.\<close>

definition valueText :: "cell_value \<Rightarrow> jsstring" where
  "valueText v =
     (case v of VNull \<Rightarrow> [] | VString s \<Rightarrow> s | VNumber n \<Rightarrow> decimalInt n | VOther t \<Rightarrow> t)"

text \<open>\<open>if (value === undefined || value === '') return; ws.getCell(row, col).value = value\<close>\<close>

definition setCell :: "worksheet \<Rightarrow> nat \<Rightarrow> nat \<Rightarrow> jsvalue \<Rightarrow> worksheet" where
  "setCell ws row col v =
     (case v of
        JUndefined \<Rightarrow> ws
      | JString s \<Rightarrow> if s = [] then ws else setValue ws row col (VString s)
      | JNumber n \<Rightarrow> setValue ws row col (VNumber n))"

definition optString :: "jsstring option \<Rightarrow> jsvalue" where
  "optString v = (case v of None \<Rightarrow> JUndefined | Some s \<Rightarrow> JString s)"

definition optNumber :: "int option \<Rightarrow> jsvalue" where
  "optNumber v = (case v of None \<Rightarrow> JUndefined | Some n \<Rightarrow> JNumber n)"

text \<open>
  \<open>ws.eachRow(callback)\<close> calls back for the rows that have a cell which is not empty, in
  ascending row order; \<open>eachRow\<close> lists their numbers. A cell is empty when its type is
  \<open>Null\<close>: it holds no value and is not merged into another cell.
\<close>

definition isNull :: "worksheet \<Rightarrow> nat \<Rightarrow> nat \<Rightarrow> bool" where
  "isNull ws r c \<longleftrightarrow> master ws r c = (r, c) \<and> cvalue (getCell ws r c) = VNull"

definition hasValues :: "worksheet \<Rightarrow> nat \<Rightarrow> bool" where
  "hasValues ws r = list_ex (\<lambda>c. \<not> isNull ws r c) [1..<Suc (colCount ws)]"

definition eachRow :: "worksheet \<Rightarrow> nat list" where
  "eachRow ws = filter (hasValues ws) [1..<Suc (rowCount ws)]"

text \<open>The callback of \<open>buildCodeToRowMap\<close>, row after row; \<open>codes\<close> is the \<open>Map\<close>.\<close>

fun scanCodes :: "worksheet \<Rightarrow> nat list \<Rightarrow> (jsstring \<rightharpoonup> nat) \<Rightarrow> (jsstring \<rightharpoonup> nat)" where
  "scanCodes ws [] codes = codes"
| "scanCodes ws (rowNumber # rows) codes =
     (let val = trim (valueText (getValue ws rowNumber 1))
      in scanCodes ws rows (if matchesCode val then codes(val \<mapsto> rowNumber) else codes))"

definition buildCodeToRowMap :: "worksheet \<Rightarrow> (jsstring \<rightharpoonup> nat)" where
  "buildCodeToRowMap ws = scanCodes ws (eachRow ws) Map.empty"

text \<open>
  \<open>fillChecklistSheet\<close>: the four header cells first (\<open>fillChecklistHeader\<close>), then the
  address map, then the loop over the checklist items (\<open>fillChecklistItems\<close>).
\<close>

definition fillChecklistHeader :: "worksheet \<Rightarrow> inspection \<Rightarrow> worksheet" where
  "fillChecklistHeader ws insp =
     (let ws1 = setCell ws 2 2 (JString (siteName (meta insp)));
          ws2 = setCell ws1 2 4 (JString (inspectionDate (meta insp)));
          ws3 = setCell ws2 3 2 (JString (inspectorName (meta insp)))
      in if truthy (signatureText (meta insp))
         then setCell ws3 3 4 (optString (signatureText (meta insp)))
         else ws3)"

fun fillChecklistItems ::
  "worksheet \<Rightarrow> (jsstring \<rightharpoonup> nat) \<Rightarrow> checklist_item list \<Rightarrow> worksheet" where
  "fillChecklistItems ws codeToRow [] = ws"
| "fillChecklistItems ws codeToRow (item # items) =
     (case codeToRow (sectionCode item) of
        None \<Rightarrow> fillChecklistItems ws codeToRow items
      | Some row \<Rightarrow>
          (let ws1 = (if truthy (status item)
                      then setCell ws row 3 (optString (status item)) else ws);
               ws2 = (if truthy (itemNotes item)
                      then setCell ws1 row 4 (optString (itemNotes item)) else ws1)
           in fillChecklistItems ws2 codeToRow items))"

definition fillChecklistSheet :: "worksheet \<Rightarrow> inspection \<Rightarrow> worksheet" where
  "fillChecklistSheet ws insp =
     (let ws1 = fillChecklistHeader ws insp;
          codeToRow = buildCodeToRowMap ws1
      in fillChecklistItems ws1 codeToRow (checklist insp))"

text \<open>\<open>fillDcSheet\<close>: the loop over the tree of one inverter, and the loop over the inverters.\<close>

fun fillDcRows ::
  "worksheet \<Rightarrow> nat \<Rightarrow> (dc_measurement \<times> nat) list \<Rightarrow> worksheet \<times> nat" where
  "fillDcRows ws currentRow [] = (ws, currentRow)"
| "fillDcRows ws currentRow ((m, depth) # tree) =
     (let ws1 = setCell ws currentRow 2 (JString (stringLabel m));
          ws2 = (if panelCount m \<noteq> None
                 then setCell ws1 currentRow 3 (optNumber (panelCount m)) else ws1);
          ws3 = (if openCircuitVoltage m \<noteq> None
                 then setCell ws2 currentRow 4 (optNumber (openCircuitVoltage m)) else ws2);
          ws4 = (if operatingCurrent m \<noteq> None
                 then setCell ws3 currentRow 5 (optNumber (operatingCurrent m)) else ws3);
          ws5 = (if stringRiso m \<noteq> None
                 then setCell ws4 currentRow 6 (optNumber (stringRiso m)) else ws4);
          ws6 = (if feedRisoNegative m \<noteq> None
                 then setCell ws5 currentRow 7 (optNumber (feedRisoNegative m)) else ws5);
          ws7 = (if feedRisoPositive m \<noteq> None
                 then setCell ws6 currentRow 8 (optNumber (feedRisoPositive m)) else ws6)
      in fillDcRows ws7 (currentRow + 1) tree)"

fun fillDcInverters ::
  "nat \<Rightarrow> worksheet \<Rightarrow> nat \<Rightarrow> dc_measurement list \<Rightarrow> inverter_config list \<Rightarrow>
   (worksheet \<times> nat) option" where
  "fillDcInverters stack ws currentRow measurements [] = Some (ws, currentRow)"
| "fillDcInverters stack ws currentRow measurements (config # configs) =
     (let ws1 = setCell ws currentRow 1 (JNumber (index config))
      in case getOrderedDcTree stack measurements (index config) of
           None \<Rightarrow> None
         | Some tree \<Rightarrow>
             (case fillDcRows ws1 (currentRow + 1) tree of
                (ws2, nextRow) \<Rightarrow> fillDcInverters stack ws2 nextRow measurements configs))"

definition fillDcSheet :: "nat \<Rightarrow> worksheet \<Rightarrow> inspection \<Rightarrow> (worksheet \<times> nat) option" where
  "fillDcSheet stack ws insp =
     (case fillDcInverters stack ws 2 (dcMeasurements insp) (inverterConfigs insp) of
        None \<Rightarrow> None
      | Some (ws1, currentRow) \<Rightarrow> Some (ws1, currentRow - 1))"

text \<open>
  \<open>fillAcSheet\<close>: the measurements by item code, then the serial numbers by the position
  of the marker rows. The marker is the Hebrew word for inverter.
\<close>

fun fillAcItems ::
  "worksheet \<Rightarrow> (jsstring \<rightharpoonup> nat) \<Rightarrow> ac_measurement list \<Rightarrow> worksheet" where
  "fillAcItems ws codeToRow [] = ws"
| "fillAcItems ws codeToRow (m # ms) =
     (case codeToRow (itemCode m) of
        None \<Rightarrow> fillAcItems ws codeToRow ms
      | Some row \<Rightarrow>
          (let ws1 = (if result m \<noteq> JUndefined \<and> result m \<noteq> JString []
                      then setCell ws row 3 (result m) else ws);
               ws2 = (if truthy (acNotes m)
                      then setCell ws1 row 4 (optString (acNotes m)) else ws1)
           in fillAcItems ws2 codeToRow ms))"

definition serialMarker :: jsstring where
  "serialMarker = [0x05DE, 0x05D4, 0x05E4, 0x05DA]"

definition findSerialRows :: "worksheet \<Rightarrow> nat list" where
  "findSerialRows ws =
     filter (\<lambda>rowNumber. startsWith (valueText (getValue ws rowNumber 2)) serialMarker)
       (eachRow ws)"

fun fillSerials :: "worksheet \<Rightarrow> nat list \<Rightarrow> inverter_serial list \<Rightarrow> worksheet" where
  "fillSerials ws serialRows [] = ws"
| "fillSerials ws serialRows (serial # serials) =
     (let idx = serialInverterIndex serial - 1
      in fillSerials
           (if idx \<ge> 0 \<and> idx < int (length serialRows) \<and> serialNumber serial \<noteq> []
            then setCell ws (serialRows ! nat idx) 3 (JString (serialNumber serial))
            else ws)
           serialRows serials)"

definition fillAcSheet :: "worksheet \<Rightarrow> inspection \<Rightarrow> worksheet" where
  "fillAcSheet ws insp =
     (let codeToRow = buildCodeToRowMap ws;
          ws1 = fillAcItems ws codeToRow (acMeasurements insp);
          serialRows = findSerialRows ws1
      in fillSerials ws1 serialRows (inverterSerials insp))"

text \<open>\<open>fillDefectsSheet\<close>: the \<open>i\<close>-th defect goes to row \<open>i + 2\<close>.\<close>

fun fillDefectsFrom :: "worksheet \<Rightarrow> nat \<Rightarrow> defect list \<Rightarrow> worksheet" where
  "fillDefectsFrom ws i [] = ws"
| "fillDefectsFrom ws i (d # ds) =
     (let row = i + 2;
          ws1 = setCell ws row 1 (JString (component d));
          ws2 = setCell ws1 row 2 (JString (fault d));
          ws3 = setCell ws2 row 3 (JString (location d));
          ws4 = setCell ws3 row 4 (JString (defectStatus d))
      in fillDefectsFrom ws4 (i + 1) ds)"

definition fillDefectsSheet :: "worksheet \<Rightarrow> defect list \<Rightarrow> worksheet" where
  "fillDefectsSheet ws ds = fillDefectsFrom ws 0 ds"

section \<open>The template exporter: orchestration\<close>

text \<open>
  A workbook is its worksheets in order, each with its name. \<open>wb.getWorksheet(name)\<close>
  gives the first sheet of that name; the sheet is changed in place.
\<close>

type_synonym workbook = "(jsstring \<times> worksheet) list"

definition SHEET_CHECKLIST :: jsstring where
  "SHEET_CHECKLIST =
     [0x05E4, 0x05E8, 0x05D5, 0x05D8, 0x05D5, 0x05E7, 0x05D5, 0x05DC, 0x0020, 0x05D1, 0x05D3,
      0x05D9, 0x05E7, 0x05D4, 0x0020, 0x05EA, 0x05E7, 0x05D5, 0x05E4, 0x05EA, 0x05D9, 0x05EA]"

definition SHEET_DC :: jsstring where
  "SHEET_DC = [0x0020, 0x05E2, 0x05E8, 0x05DB, 0x05D9, 0x0020, 0x0044, 0x0043]"

definition SHEET_AC :: jsstring where
  "SHEET_AC = [0x05E2, 0x05E8, 0x05DB, 0x05D9, 0x0020, 0x0041, 0x0043]"

definition SHEET_DEFECTS :: jsstring where
  "SHEET_DEFECTS =
     [0x05E8, 0x05D9, 0x05DB, 0x05D5, 0x05D6, 0x0020, 0x05DC, 0x05D9, 0x05E7, 0x05D5, 0x05D9,
      0x05D9, 0x05DD]"

definition getWorksheet :: "workbook \<Rightarrow> jsstring \<Rightarrow> worksheet option" where
  "getWorksheet wb name = map_option snd (findFirst (\<lambda>entry. fst entry = name) wb)"

definition putWorksheet :: "workbook \<Rightarrow> jsstring \<Rightarrow> worksheet \<Rightarrow> workbook" where
  "putWorksheet wb name ws = updateFirst (\<lambda>entry. fst entry = name) (\<lambda>entry. (fst entry, ws)) wb"

text \<open>
  \<open>ws.removeTable(name)\<close> deletes the table kept under that name; \<open>ws.getTables()\<close> lists
  the table objects. The loop removes every listed table whose name is truthy.
\<close>

definition removeTable :: "worksheet \<Rightarrow> jsstring \<Rightarrow> worksheet" where
  "removeTable ws name = ws\<lparr>tables := filter (\<lambda>t. tname t \<noteq> Some name) (tables ws)\<rparr>"

fun removeTables :: "worksheet \<Rightarrow> table list \<Rightarrow> worksheet" where
  "removeTables ws [] = ws"
| "removeTables ws (t # entries) =
     removeTables
       (case tname t of
          None \<Rightarrow> ws
        | Some name \<Rightarrow> if name \<noteq> [] then removeTable ws name else ws)
       entries"

definition stripTables :: "worksheet \<Rightarrow> worksheet" where
  "stripTables ws = removeTables ws (tables ws)"

text \<open>
  The part of \<open>downloadWorkbook\<close> between loading the template and writing the buffer:
  the four fillers with their stripe ranges, each on its sheet if the workbook has it, then
  the removal of the tables on every sheet. \<open>None\<close> is the RangeError of a recursion
  deeper than \<open>stack\<close> in the DC filler.
\<close>

definition prepareWorkbook ::
  "nat \<Rightarrow> inspection \<Rightarrow> defect list option \<Rightarrow> workbook \<Rightarrow> workbook option" where
  "prepareWorkbook stack insp allDefects wb =
     (let wb1 = (case getWorksheet wb SHEET_CHECKLIST of
                   None \<Rightarrow> wb
                 | Some wsChecklist \<Rightarrow>
                     putWorksheet wb SHEET_CHECKLIST
                       (bakeTableStripes (fillChecklistSheet wsChecklist insp) 2 84 4))
      in case (case getWorksheet wb1 SHEET_DC of
                 None \<Rightarrow> Some wb1
               | Some wsDc \<Rightarrow>
                   (case fillDcSheet stack wsDc insp of
                      None \<Rightarrow> None
                    | Some (wsDc1, dcLastRow) \<Rightarrow>
                        Some (putWorksheet wb1 SHEET_DC (bakeTableStripes wsDc1 2 dcLastRow 8))))
         of None \<Rightarrow> None
          | Some wb2 \<Rightarrow>
             (let wb3 = (case getWorksheet wb2 SHEET_AC of
                           None \<Rightarrow> wb2
                         | Some wsAc \<Rightarrow>
                             putWorksheet wb2 SHEET_AC
                               (bakeTableStripes (fillAcSheet wsAc insp) 2 42 4));
                  ds = (case allDefects of Some given \<Rightarrow> given | None \<Rightarrow> defects insp);
                  wb4 = (case getWorksheet wb3 SHEET_DEFECTS of
                           None \<Rightarrow> wb3
                         | Some wsDefects \<Rightarrow>
                             putWorksheet wb3 SHEET_DEFECTS
                               (bakeTableStripes (fillDefectsSheet wsDefects ds) 2
                                  (max 2 (length ds + 1)) 4))
              in Some (map (\<lambda>entry. (fst entry, stripTables (snd entry))) wb4)))"

text \<open>
  The environment of an export: what \<open>fetch('/template.xlsx')\<close> settles to, the two
  ExcelJS conversions between bytes and workbooks, and the call-stack depth available.
  The browser is the sequence of effects on it; the anchor click is the download.
\<close>

type_synonym bytes = "8 word list"

datatype export_error =
    FetchRejected
  | TemplateLoadFailed nat
  | ParseFailed
  | StackOverflow
  | WriteFailed

record response =
  ok :: bool
  httpStatus :: nat
  body :: bytes

record environment =
  fetchTemplate :: "export_error + response"
  xlsxLoad :: "bytes \<Rightarrow> export_error + workbook"
  xlsxWrite :: "workbook \<Rightarrow> export_error + bytes"
  stackLimit :: nat

datatype browser_event =
    CreateObjectURL bytes
  | AnchorClick jsstring bytes
  | RevokeObjectURL

definition loadTemplate :: "environment \<Rightarrow> export_error + workbook" where
  "loadTemplate env =
     (case fetchTemplate env of
        Inl e \<Rightarrow> Inl e
      | Inr response \<Rightarrow>
          if \<not> ok response then Inl (TemplateLoadFailed (httpStatus response))
          else xlsxLoad env (body response))"

text \<open>The file name: a Hebrew prefix, the site name or a placeholder, the date.\<close>

definition downloadName :: "inspection \<Rightarrow> jsstring" where
  "downloadName insp =
     [0x05D1, 0x05D3, 0x05D9, 0x05E7, 0x05D4, 0x005F]
     @ (if siteName (meta insp) \<noteq> [] then siteName (meta insp)
        else [0x05DC, 0x05DC, 0x05D0, 0x005F, 0x05E9, 0x05DD])
     @ ascii ''_'' @ inspectionDate (meta insp) @ ascii ''.xlsx''"

definition downloadWorkbook ::
  "environment \<Rightarrow> inspection \<Rightarrow> defect list option \<Rightarrow> browser_event list \<Rightarrow>
   (export_error + unit) \<times> browser_event list" where
  "downloadWorkbook env insp allDefects browser =
     (case loadTemplate env of
        Inl e \<Rightarrow> (Inl e, browser)
      | Inr wb \<Rightarrow>
          (case prepareWorkbook (stackLimit env) insp allDefects wb of
             None \<Rightarrow> (Inl StackOverflow, browser)
           | Some wb1 \<Rightarrow>
               (case xlsxWrite env wb1 of
                  Inl e \<Rightarrow> (Inl e, browser)
                | Inr outBuffer \<Rightarrow>
                    (Inr (),
                     browser @ [CreateObjectURL outBuffer,
                                AnchorClick (downloadName insp) outBuffer,
                                RevokeObjectURL]))))"

section \<open>Specification-level notions\<close>

text \<open>
  What "the measurement set and the serial list were regenerated from the inverter
  configurations" means for an inspection: block by block, one root measurement per string
  of every configuration (none for a negative string count), labelled by \<open>stringLabelAt\<close>
  of its position, with the identifiers drawn in order and every numeric field unset; and
  one serial record per configuration with the empty serial number.
\<close>

definition unsetRoot :: "dc_measurement \<Rightarrow> bool" where
  "unsetRoot m \<longleftrightarrow>
     parentId m = None \<and> panelCount m = None \<and> openCircuitVoltage m = None \<and>
     operatingCurrent m = None \<and> stringRiso m = None \<and> feedRisoNegative m = None \<and>
     feedRisoPositive m = None"


text \<open>
  Configurations whose string counts are array lengths (below \<open>2\<^sup>3\<^sup>2\<close>), and the number
  of strings they have together, which is the number of identifiers that a regeneration
  draws.
\<close>

definition stringCountsFit :: "inverter_config list \<Rightarrow> bool" where
  "stringCountsFit configs \<longleftrightarrow> list_all (\<lambda>c. stringCount c < 4294967296) configs"

definition stringTotal :: "inverter_config list \<Rightarrow> nat" where
  "stringTotal configs = sum_list (map (\<lambda>c. nat (stringCount c)) configs)"

text \<open>
  A cell that lies in no merged range; the cells that the checklist header step addresses
  (B2, D2, B3, D3); and for a loop that writes columns 3 and 4 of the rows that an address
  map gives for a list of codes, that these cells lie in no merged range.
\<close>

definition unmerged :: "worksheet \<Rightarrow> nat \<Rightarrow> nat \<Rightarrow> bool" where
  "unmerged ws r c \<longleftrightarrow> \<not> list_ex (\<lambda>m. inRange m r c) (merges ws)"


definition rowsUnmerged :: "worksheet \<Rightarrow> (jsstring \<rightharpoonup> nat) \<Rightarrow> jsstring list \<Rightarrow> bool" where
  "rowsUnmerged ws codeToRow codes \<longleftrightarrow>
     list_all (\<lambda>code. case codeToRow code of
                        None \<Rightarrow> True
                      | Some r \<Rightarrow> unmerged ws r 3 \<and> unmerged ws r 4) codes"



text \<open>
  The marker rows that \<open>fillAcSheet\<close> finds (after it has written the measurements), and
  the cells that the serial loop writes: column 3 of the marker row numbered by the inverter
  index of a serial record with an index in range and a non-empty serial number.
\<close>

definition acSerialRows :: "worksheet \<Rightarrow> inspection \<Rightarrow> nat list" where
  "acSerialRows ws insp =
     findSerialRows (fillAcItems ws (buildCodeToRowMap ws) (acMeasurements insp))"

definition serialWritten :: "nat list \<Rightarrow> inverter_serial \<Rightarrow> bool" where
  "serialWritten serialRows serial \<longleftrightarrow>
     1 \<le> serialInverterIndex serial \<and> serialInverterIndex serial \<le> int (length serialRows) \<and>
     serialNumber serial \<noteq> []"

definition serialTarget :: "nat list \<Rightarrow> inverter_serial list \<Rightarrow> nat \<Rightarrow> nat \<Rightarrow> bool" where
  "serialTarget serialRows serials r c \<longleftrightarrow>
     c = 3 \<and>
     list_ex (\<lambda>serial. serialWritten serialRows serial \<and>
                r = serialRows ! nat (serialInverterIndex serial - 1)) serials"

text \<open>
  What a workbook keeps besides cells: per sheet its name, its table objects and its
  sheet-level autofilter. A table is unnamed when its name is undefined or empty.
\<close>

definition sheetTables :: "workbook \<Rightarrow> (jsstring \<times> table list \<times> jsstring option) list" where
  "sheetTables wb = map (\<lambda>entry. (fst entry, tables (snd entry), autoFilter (snd entry))) wb"

definition unnamed :: "table \<Rightarrow> bool" where
  "unnamed t \<longleftrightarrow> \<not> truthy (tname t)"

text \<open>
  The forest that parent links draw on a list of measurements. \<open>below ms k a x\<close>: \<open>x\<close> is
  reached from \<open>a\<close> by \<open>k\<close> steps from a measurement to one of its children in \<open>ms\<close>.
  A descendant is reached by at least one step; a measurement is rooted when it is reached
  from a measurement of \<open>ms\<close> without parent. \<open>precedes xs x y\<close>: \<open>y\<close> occurs in \<open>xs\<close>
  after the first occurrence of \<open>x\<close>.
\<close>

fun below :: "dc_measurement list \<Rightarrow> nat \<Rightarrow> dc_measurement \<Rightarrow> dc_measurement \<Rightarrow> bool" where
  "below ms 0 a x \<longleftrightarrow> x = a"
| "below ms (Suc k) a x \<longleftrightarrow> (\<exists>c \<in> set ms. parentId c = Some (dcId a) \<and> below ms k c x)"

definition descendant :: "dc_measurement list \<Rightarrow> dc_measurement \<Rightarrow> dc_measurement \<Rightarrow> bool" where
  "descendant ms a x \<longleftrightarrow> (\<exists>k. below ms (Suc k) a x)"

definition rootedAt :: "dc_measurement list \<Rightarrow> nat \<Rightarrow> dc_measurement \<Rightarrow> bool" where
  "rootedAt ms d x \<longleftrightarrow> (\<exists>r \<in> set ms. parentId r = None \<and> below ms d r x)"

definition rooted :: "dc_measurement list \<Rightarrow> dc_measurement \<Rightarrow> bool" where
  "rooted ms x \<longleftrightarrow> (\<exists>d. rootedAt ms d x)"

definition precedes :: "'a list \<Rightarrow> 'a \<Rightarrow> 'a \<Rightarrow> bool" where
  "precedes xs x y \<longleftrightarrow> x \<in> set xs \<and> y \<in> set (tl (dropWhile (\<lambda>z. z \<noteq> x) xs))"

text \<open>
  Depth-first pre-order, as a relation: \<open>preorder ms cs res\<close> when \<open>res\<close> lists every
  measurement of \<open>cs\<close> in turn, each followed at once by the pre-order of its children in
  \<open>ms\<close>.
\<close>

inductive preorder ::
  "dc_measurement list \<Rightarrow> dc_measurement list \<Rightarrow> dc_measurement list \<Rightarrow> bool"
  for ms :: "dc_measurement list" where
  preorder_Nil: "preorder ms [] []"
| preorder_Cons:
    "preorder ms (childrenOf ms (Some (dcId m))) sub \<Longrightarrow> preorder ms rest later \<Longrightarrow>
     preorder ms (m # rest) (m # sub @ later)"

text \<open>
  The invariants of the measurement forest. \<open>parentOf\<close> is the measurement a parent
  link leads to. Identifiers are unique and not empty; every parent link leads to a
  measurement; a measurement and its parent belong to the same inverter; and a chain of
  parent links has at most three measurements (the parent of a parent is a root).
\<close>

definition parentOf :: "dc_measurement list \<Rightarrow> dc_measurement \<Rightarrow> dc_measurement option" where
  "parentOf ms m =
     (case parentId m of None \<Rightarrow> None | Some p \<Rightarrow> findFirst (\<lambda>q. dcId q = p) ms)"

definition idsUnique :: "dc_measurement list \<Rightarrow> bool" where
  "idsUnique ms \<longleftrightarrow> distinct (map dcId ms) \<and> [] \<notin> set (map dcId ms)"

definition parentsExist :: "dc_measurement list \<Rightarrow> bool" where
  "parentsExist ms \<longleftrightarrow> list_all (\<lambda>m. parentId m = None \<or> parentOf ms m \<noteq> None) ms"

definition sameInverterAsParent :: "dc_measurement list \<Rightarrow> bool" where
  "sameInverterAsParent ms \<longleftrightarrow>
     list_all (\<lambda>m. case parentOf ms m of None \<Rightarrow> True
                    | Some q \<Rightarrow> inverterIndex q = inverterIndex m) ms"

definition depthAtMost3 :: "dc_measurement list \<Rightarrow> bool" where
  "depthAtMost3 ms \<longleftrightarrow>
     list_all (\<lambda>m. case parentOf ms m of None \<Rightarrow> True
                    | Some q \<Rightarrow> (case parentOf ms q of None \<Rightarrow> True
                                 | Some g \<Rightarrow> parentId g = None)) ms"

definition forestInv :: "dc_measurement list \<Rightarrow> bool" where
  "forestInv ms \<longleftrightarrow>
     idsUnique ms \<and> parentsExist ms \<and> sameInverterAsParent ms \<and> depthAtMost3 ms"

text \<open>
  What an operation may assume of the environment and of its arguments: the inverter count
  and the string counts of the new configurations are array lengths (below \<open>2\<^sup>3\<^sup>2\<close>);
  drawn identifiers are new, not empty and differ from each other; an update of a
  measurement does not assign its identifier, its parent link or its inverter; a removal
  has a call stack of depth three.
\<close>

definition freshId :: "dc_measurement list \<Rightarrow> jsstring \<Rightarrow> bool" where
  "freshId ms uid \<longleftrightarrow> uid \<noteq> [] \<and> uid \<notin> set (map dcId ms)"

definition freshIds :: "(nat \<Rightarrow> jsstring) \<Rightarrow> nat \<Rightarrow> bool" where
  "freshIds uuid n \<longleftrightarrow> distinct (map uuid [0..<n]) \<and> [] \<notin> set (map uuid [0..<n])"

definition structural :: "dc_updates \<Rightarrow> bool" where
  "structural u \<longleftrightarrow> newDcId u \<noteq> None \<or> newParentId u \<noteq> None \<or> newInverterIndex u \<noteq> None"

fun opAllowed :: "inspection \<Rightarrow> store_op \<Rightarrow> bool" where
  "opAllowed insp (SetInverterConfigs uuid count defaultStrings) =
     (count < 4294967296 \<and>
      stringCountsFit (newConfigs (nat count) defaultStrings (inverterConfigs insp)) \<and>
      freshIds uuid (stringTotal (newConfigs (nat count) defaultStrings (inverterConfigs insp))))"
| "opAllowed insp (UpdateInverterConfig uuid idx updates) =
     (stringCountsFit
        (updateFirst (\<lambda>c. index c = idx) (assignConfig updates) (inverterConfigs insp)) \<and>
      freshIds uuid (stringTotal
        (updateFirst (\<lambda>c. index c = idx) (assignConfig updates) (inverterConfigs insp))))"
| "opAllowed insp (UpdateDcMeasurement ident updates) = (\<not> structural updates)"
| "opAllowed insp (AddDcString uid inverter) = freshId (dcMeasurements insp) uid"
| "opAllowed insp (AddDcSubstring uid parent) = freshId (dcMeasurements insp) uid"
| "opAllowed insp (RemoveDcMeasurement stack ident) = (3 \<le> stack)"

text \<open>
  The links of a measurement (what the invariants read), and a set of identifiers that
  holds, with a measurement, all that have it as parent.
\<close>

definition skeleton :: "dc_measurement \<Rightarrow> jsstring \<times> jsstring option \<times> int" where
  "skeleton m = (dcId m, parentId m, inverterIndex m)"

definition downClosed :: "dc_measurement list \<Rightarrow> jsstring set \<Rightarrow> bool" where
  "downClosed ms S \<longleftrightarrow> (\<forall>m \<in> set ms. \<forall>x \<in> S. parentId m = Some x \<longrightarrow> dcId m \<in> S)"

section \<open>Sample data\<close>

definition emptyStyle :: style where
  "emptyStyle = \<lparr>numFmt = None, font = None, alignment = None, border = None,
                  fill = None, protection = None\<rparr>"

definition emptyCell :: cell where
  "emptyCell = \<lparr>cvalue = VNull, cstyle = emptyStyle\<rparr>"

definition blankSheet :: worksheet where
  "blankSheet = \<lparr>cells = (\<lambda>r c. emptyCell), rowCount = 0, colCount = 0, tables = [],
                  autoFilter = None, merges = []\<rparr>"

definition headerStyle :: style where
  "headerStyle = emptyStyle\<lparr>fill := Some (PatternFill (ascii ''solid'') (Some (Argb (ascii ''FF4472C4''))) None)\<rparr>"

definition stripeSample :: worksheet where
  "stripeSample = setStyle (setStyle blankSheet 3 1 headerStyle) 4 2 headerStyle"

definition sampleUuid :: "nat \<Rightarrow> jsstring" where
  "sampleUuid n = ascii ''id-'' @ decimal n"

definition blankInspection :: inspection where
  "blankInspection =
     \<lparr>meta = \<lparr>siteName = [], inspectionDate = [], inspectorName = [], signatureText = None\<rparr>,
      inverterConfigs = [], checklist = [], dcMeasurements = [], acMeasurements = [],
      inverterSerials = [], defects = []\<rparr>"

definition twoConfigs :: "inverter_config list" where
  "twoConfigs =
     [\<lparr>index = 1, label = defaultInverterLabel 0, stringCount = 2\<rparr>,
      \<lparr>index = 2, label = defaultInverterLabel 1, stringCount = 2\<rparr>]"

definition twoInverters :: inspection where
  "twoInverters =
     blankInspection
       \<lparr>inverterConfigs := twoConfigs,
        dcMeasurements :=
          [createDcMeasurement (sampleUuid 0) 1 (ascii ''A'') None,
           createDcMeasurement (sampleUuid 1) 1 (ascii ''B'') None,
           createDcMeasurement (sampleUuid 2) 2 (ascii ''A'') None,
           createDcMeasurement (sampleUuid 3) 2 (ascii ''B'') None],
        inverterSerials :=
          [\<lparr>serialInverterIndex = 1, serialNumber = []\<rparr>,
           \<lparr>serialInverterIndex = 2, serialNumber = []\<rparr>]\<rparr>"



definition growStrings :: inverter_config_updates where
  "growStrings = \<lparr>newIndex = None, newLabel = None, newStringCount = Some 3\<rparr>"

definition rootA :: dc_measurement where
  "rootA = createDcMeasurement (ascii ''a'') 1 (ascii ''A'') None"

definition childA1 :: dc_measurement where
  "childA1 = createDcMeasurement (ascii ''b'') 1 (ascii ''A.1'') (Some (ascii ''a''))"

definition childA2 :: dc_measurement where
  "childA2 = createDcMeasurement (ascii ''c'') 1 (ascii ''A.2'') (Some (ascii ''a''))"

definition withDc :: "dc_measurement list \<Rightarrow> inspection" where
  "withDc ms = blankInspection\<lparr>dcMeasurements := ms\<rparr>"

definition titleRange :: merged_range where
  "titleRange = \<lparr>topRow = 1, leftCol = 1, bottomRow = 1, rightCol = 4\<rparr>"

definition checklistSample :: worksheet where
  "checklistSample =
     (setValue (setValue blankSheet 5 1 (VString (ascii '' 1.1 ''))) 6 1 (VString (ascii ''1.2'')))
       \<lparr>colCount := 4, merges := [titleRange]\<rparr>"

definition mergedSample :: worksheet where
  "mergedSample =
     checklistSample
       \<lparr>merges := [titleRange, \<lparr>topRow = 5, leftCol = 3, bottomRow = 5, rightCol = 4\<rparr>]\<rparr>"

definition item13 :: checklist_item where
  "item13 = \<lparr>sectionCode = ascii ''1.1'', description = [], status = Some (ascii ''ok''),
             itemNotes = Some (ascii ''loose'')\<rparr>"

definition mergedInspection :: inspection where
  "mergedInspection = blankInspection\<lparr>checklist := [item13]\<rparr>"








definition acSample :: worksheet where
  "acSample =
     (setValue (setValue (setValue blankSheet 3 2 (VString (serialMarker @ ascii '' 1'')))
        4 2 (VString (ascii ''L1-N''))) 5 2 (VString (serialMarker @ ascii '' 2'')))
       \<lparr>colCount := 4, merges := [titleRange]\<rparr>"

definition serialOne :: inverter_serial where
  "serialOne = \<lparr>serialInverterIndex = 1, serialNumber = ascii ''SN-1''\<rparr>"

definition serialEmpty :: inverter_serial where
  "serialEmpty = \<lparr>serialInverterIndex = 2, serialNumber = []\<rparr>"

definition serialBeyond :: inverter_serial where
  "serialBeyond = \<lparr>serialInverterIndex = 7, serialNumber = ascii ''SN-7''\<rparr>"

definition acInspection :: inspection where
  "acInspection = blankInspection\<lparr>inverterSerials := [serialOne, serialEmpty, serialBeyond]\<rparr>"

definition serialAgain :: inverter_serial where
  "serialAgain = \<lparr>serialInverterIndex = 1, serialNumber = ascii ''SN-1b''\<rparr>"

definition serialBlank :: inverter_serial where
  "serialBlank = \<lparr>serialInverterIndex = 1, serialNumber = []\<rparr>"

definition twiceInspection :: inspection where
  "twiceInspection = blankInspection\<lparr>inverterSerials := [serialOne, serialAgain, serialBlank]\<rparr>"

definition serialTwo :: inverter_serial where
  "serialTwo = \<lparr>serialInverterIndex = 2, serialNumber = ascii ''SN-2''\<rparr>"

definition loneSerialInspection :: inspection where
  "loneSerialInspection = blankInspection\<lparr>inverterSerials := [serialTwo]\<rparr>"

definition namedTable :: table where
  "namedTable = \<lparr>tname = Some (ascii ''Table1''), tref = ascii ''A1:D9''\<rparr>"

definition namelessTable :: table where
  "namelessTable = \<lparr>tname = None, tref = ascii ''A1:B2''\<rparr>"

definition tabledSheet :: worksheet where
  "tabledSheet = blankSheet\<lparr>tables := [namedTable]\<rparr>"

definition leftoverSheet :: worksheet where
  "leftoverSheet = blankSheet\<lparr>tables := [namelessTable, namedTable],
                               autoFilter := Some (ascii ''A1:B1'')\<rparr>"

definition tabledBook :: workbook where
  "tabledBook = [(SHEET_DEFECTS, tabledSheet), (ascii ''Notes'', tabledSheet)]"

definition leftoverBook :: workbook where
  "leftoverBook = [(ascii ''Notes'', leftoverSheet)]"

definition countTables :: "workbook \<Rightarrow> export_error + bytes" where
  "countTables wb = Inr (map (\<lambda>entry. of_nat (length (tables (snd entry)))) wb)"

definition servingEnv :: "workbook \<Rightarrow> environment" where
  "servingEnv wb =
     \<lparr>fetchTemplate = Inr \<lparr>ok = True, httpStatus = 200, body = []\<rparr>,
      xlsxLoad = (\<lambda>b. Inr wb), xlsxWrite = countTables, stackLimit = 0\<rparr>"

definition missingEnv :: environment where
  "missingEnv =
     \<lparr>fetchTemplate = Inr \<lparr>ok = False, httpStatus = 404, body = []\<rparr>,
      xlsxLoad = (\<lambda>b. Inr tabledBook), xlsxWrite = countTables, stackLimit = 0\<rparr>"

definition rootB :: dc_measurement where
  "rootB = createDcMeasurement (ascii ''e'') 1 (ascii ''B'') None"

definition grandA11 :: dc_measurement where
  "grandA11 = createDcMeasurement (ascii ''f'') 1 (ascii ''A.1.1'') (Some (ascii ''b''))"

definition otherRoot :: dc_measurement where
  "otherRoot = createDcMeasurement (ascii ''g'') 2 (ascii ''A'') None"

definition dcForest :: "dc_measurement list" where
  "dcForest = [rootA, rootB, otherRoot, childA1, childA2, grandA11]"

definition orphan :: dc_measurement where
  "orphan = createDcMeasurement (ascii ''x'') 1 (ascii ''A.1'') (Some (ascii ''gone''))"

definition strayChild :: dc_measurement where
  "strayChild = createDcMeasurement (ascii ''y'') 1 (ascii ''A.1'') (Some (ascii ''g''))"

definition noUpdates :: dc_updates where
  "noUpdates =
     \<lparr>newDcId = None, newParentId = None, newInverterIndex = None, newStringLabel = None,
      newPanelCount = None, newOpenCircuitVoltage = None, newOperatingCurrent = None,
      newStringRiso = None, newFeedRisoNegative = None, newFeedRisoPositive = None\<rparr>"

definition deepInspection :: inspection where
  "deepInspection = withDc [rootA, rootB, childA1, grandA11]"

section \<open>The row-stripe baker: what it writes and what it leaves\<close>

lemma scanFills_eq:
  "scanFills ws r e acc = acc \<union> {r'. r \<le> r' \<and> r' \<le> e \<and> hasSolidFill (getCell ws r' 1)}"
proof (induction ws r e acc rule: scanFills.induct)
  case (1 ws r endRow acc)
  show ?case
  proof (cases "r \<le> endRow")
    case True
    have split: "{r'. r \<le> r' \<and> r' \<le> endRow \<and> hasSolidFill (getCell ws r' 1)} =
      (if hasSolidFill (getCell ws r 1) then {r} else {}) \<union>
      {r'. Suc r \<le> r' \<and> r' \<le> endRow \<and> hasSolidFill (getCell ws r' 1)}"
    proof -
      have "r \<le> r' \<longleftrightarrow> r' = r \<or> Suc r \<le> r'" for r' by auto
      with True show ?thesis by auto
    qed
    have "scanFills ws r endRow acc =
        scanFills ws (Suc r) endRow (if hasSolidFill (getCell ws r 1) then insert r acc else acc)"
      using True by (subst scanFills.simps) simp
    also have "\<dots> = (if hasSolidFill (getCell ws r 1) then insert r acc else acc) \<union>
        {r'. Suc r \<le> r' \<and> r' \<le> endRow \<and> hasSolidFill (getCell ws r' 1)}"
      by (rule "1.IH"[OF True])
    also have "\<dots> = acc \<union> {r'. r \<le> r' \<and> r' \<le> endRow \<and> hasSolidFill (getCell ws r' 1)}"
      unfolding split by auto
    finally show ?thesis .
  next
    case False
    then show ?thesis by (subst scanFills.simps) auto
  qed
qed

lemma cells_setStyle:
  "cells (setStyle ws r c s) r' c' =
     (if r' = r \<and> c' = c then (cells ws r c)\<lparr>cstyle := s\<rparr> else cells ws r' c')"
  by (simp add: setStyle_def putCell_def getCell_def)

lemma rest_setStyle:
  "rowCount (setStyle ws r c s) = rowCount ws"
  "colCount (setStyle ws r c s) = colCount ws"
  "tables (setStyle ws r c s) = tables ws"
  "autoFilter (setStyle ws r c s) = autoFilter ws"
  by (simp_all add: setStyle_def putCell_def)

lemma cells_stripeRow:
  "cells (stripeRow ws r c cols col) r' c' =
     (if r' = r \<and> c \<le> c' \<and> c' \<le> cols
      then (cells ws r' c')\<lparr>cstyle := stripeStyle (cells ws r' c') col\<rparr>
      else cells ws r' c')"
proof (induction ws r c cols col rule: stripeRow.induct)
  case (1 ws r c cols col)
  show ?case
  proof (cases "c \<le> cols")
    case True
    show ?thesis
      using True "1.IH"[OF True]
      by (subst stripeRow.simps) (auto simp: cells_setStyle getCell_def)
  next
    case False
    then show ?thesis by (subst stripeRow.simps) auto
  qed
qed

lemma rest_stripeRow:
  "rowCount (stripeRow ws r c cols col) = rowCount ws \<and>
   colCount (stripeRow ws r c cols col) = colCount ws \<and>
   tables (stripeRow ws r c cols col) = tables ws \<and>
   autoFilter (stripeRow ws r c cols col) = autoFilter ws"
proof (induction ws r c cols col rule: stripeRow.induct)
  case (1 ws r c cols col)
  show ?case
  proof (cases "c \<le> cols")
    case True
    show ?thesis
      using True "1.IH"[OF True]
      by (subst (1 2 3 4) stripeRow.simps) (simp add: rest_setStyle)
  next
    case False
    then show ?thesis by (subst (1 2 3 4) stripeRow.simps) auto
  qed
qed

lemma cells_applyStripes:
  "cells (applyStripes ws r e cols S i) r' c' =
     (if r \<le> r' \<and> r' \<le> e \<and> r' \<notin> S \<and> 1 \<le> c' \<and> c' \<le> cols
      then (cells ws r' c')\<lparr>cstyle := stripeStyle (cells ws r' c') (stripeColor (i + (r' - r)))\<rparr>
      else cells ws r' c')"
proof (induction ws r e cols S i rule: applyStripes.induct)
  case (1 ws r e cols S i)
  show ?case
  proof (cases "r \<le> e")
    case True
    show ?thesis
    proof (cases "r' = r")
      case same: True
      show ?thesis
        using True same "1.IH"[OF True]
        by (subst applyStripes.simps) (auto simp: cells_stripeRow)
    next
      case diff: False
      have "i + (r' - r) = Suc i + (r' - Suc r)" if "Suc r \<le> r'"
        using that by simp
      then show ?thesis
        using True diff "1.IH"[OF True]
        by (subst applyStripes.simps) (auto simp: cells_stripeRow Suc_le_eq)
    qed
  next
    case False
    then show ?thesis by (subst applyStripes.simps) auto
  qed
qed

lemma rest_applyStripes:
  "rowCount (applyStripes ws r e cols S i) = rowCount ws \<and>
   colCount (applyStripes ws r e cols S i) = colCount ws \<and>
   tables (applyStripes ws r e cols S i) = tables ws \<and>
   autoFilter (applyStripes ws r e cols S i) = autoFilter ws"
proof (induction ws r e cols S i rule: applyStripes.induct)
  case (1 ws r e cols S i)
  show ?case
  proof (cases "r \<le> e")
    case True
    show ?thesis
      using True "1.IH"[OF True]
      by (subst (1 2 3 4) applyStripes.simps) (simp add: rest_stripeRow)
  next
    case False
    then show ?thesis by (subst (1 2 3 4) applyStripes.simps) auto
  qed
qed

lemma cells_bakeTableStripes:
  "cells (bakeTableStripes ws s e cols) r c =
     (if s \<le> r \<and> r \<le> e \<and> \<not> hasSolidFill (cells ws r 1) \<and> 1 \<le> c \<and> c \<le> cols
      then (cells ws r c)\<lparr>cstyle := stripeStyle (cells ws r c) (stripeColor (r - s))\<rparr>
      else cells ws r c)"
  by (auto simp: bakeTableStripes_def cells_applyStripes scanFills_eq getCell_def)

text \<open>
  Claim C1. For every row \<open>r\<close> of the range \<open>[startRow, endRow]\<close> whose column-1 cell had
  no solid fill before the call, every cell of the row in columns \<open>1..cols\<close> ends with a
  solid pattern fill whose colour is \<open>FFD9E2F3\<close> when the number \<open>r - startRow\<close> of rows
  visited before it (flagged or not) is even and \<open>FFB4C6E7\<close> when it is odd; a row flagged in
  phase 1 keeps the fill of every one of its cells. The two colours differ.
\<close>

theorem bakeTableStripes_alternates:
  assumes "startRow \<le> r" and "r \<le> endRow"
  shows "(\<not> hasSolidFill (getCell ws r 1) \<longrightarrow>
            (\<forall>c. 1 \<le> c \<and> c \<le> cols \<longrightarrow>
               fill (cstyle (getCell (bakeTableStripes ws startRow endRow cols) r c)) =
                 (let col = (if even (r - startRow) then ascii ''FFD9E2F3'' else ascii ''FFB4C6E7'')
                  in Some (PatternFill (ascii ''solid'') (Some (Argb col)) (Some (Argb col)))))) \<and>
         (hasSolidFill (getCell ws r 1) \<longrightarrow>
            (\<forall>c. fill (cstyle (getCell (bakeTableStripes ws startRow endRow cols) r c)) =
                 fill (cstyle (getCell ws r c)))) \<and>
         ascii ''FFD9E2F3'' \<noteq> ascii ''FFB4C6E7''"
  using assms
  by (simp add: getCell_def cells_bakeTableStripes stripeStyle_def stripeColor_def
      stripeEven_def stripeOdd_def solid_def Let_def ascii_def even_iff_mod_2_eq_zero)

theorem bakeTableStripes_alternates_witness:
  "fill (cstyle (getCell (bakeTableStripes stripeSample 2 5 2) 5 2)) =
     Some (PatternFill (ascii ''solid'') (Some (Argb (ascii ''FFB4C6E7'')))
       (Some (Argb (ascii ''FFB4C6E7'')))) \<and>
   fill (cstyle (getCell (bakeTableStripes stripeSample 2 5 2) 4 1)) =
     Some (PatternFill (ascii ''solid'') (Some (Argb (ascii ''FFD9E2F3'')))
       (Some (Argb (ascii ''FFD9E2F3'')))) \<and>
   fill (cstyle (getCell (bakeTableStripes stripeSample 2 5 2) 3 1)) =
     fill (cstyle (getCell stripeSample 3 1))"
  using bakeTableStripes_alternates [of 2 5 5 stripeSample 2]
    bakeTableStripes_alternates [of 2 4 5 stripeSample 2]
    bakeTableStripes_alternates [of 2 3 5 stripeSample 2]
  by (simp add: stripeSample_def blankSheet_def emptyCell_def emptyStyle_def headerStyle_def
      getCell_def cells_setStyle hasSolidFill_def solid_def Let_def)

text \<open>
  Claim C10. Whether a row of the range is restriped depends on the column-1 cell alone: a
  cell in columns \<open>1..cols\<close> of a row whose column-1 cell has no solid fill gets the stripe
  style whatever fill it had itself, and a row whose column-1 cell has a solid fill is left
  as it was. No cell value changes, and no cell outside rows \<open>[startRow, endRow]\<close> and columns
  \<open>[1, cols]\<close> changes at all.
\<close>

theorem bakeTableStripes_frame:
  "(startRow \<le> r \<and> r \<le> endRow \<and> 1 \<le> c \<and> c \<le> cols \<longrightarrow>
      getCell (bakeTableStripes ws startRow endRow cols) r c =
        (if hasSolidFill (getCell ws r 1) then getCell ws r c
         else (getCell ws r c)
                \<lparr>cstyle := stripeStyle (getCell ws r c) (stripeColor (r - startRow))\<rparr>)) \<and>
   (\<not> (startRow \<le> r \<and> r \<le> endRow \<and> 1 \<le> c \<and> c \<le> cols) \<longrightarrow>
      getCell (bakeTableStripes ws startRow endRow cols) r c = getCell ws r c) \<and>
   cvalue (getCell (bakeTableStripes ws startRow endRow cols) r c) = cvalue (getCell ws r c)"
  by (simp add: getCell_def cells_bakeTableStripes)

theorem bakeTableStripes_frame_witness:
  "hasSolidFill (getCell stripeSample 4 2) \<and> \<not> hasSolidFill (getCell stripeSample 4 1) \<and>
   fill (cstyle (getCell (bakeTableStripes stripeSample 2 5 2) 4 2)) =
     Some (PatternFill (ascii ''solid'') (Some (Argb (ascii ''FFD9E2F3'')))
       (Some (Argb (ascii ''FFD9E2F3'')))) \<and>
   getCell (bakeTableStripes stripeSample 2 5 2) 3 2 = getCell stripeSample 3 2 \<and>
   getCell (bakeTableStripes stripeSample 2 5 2) 4 3 = getCell stripeSample 4 3 \<and>
   getCell (bakeTableStripes stripeSample 2 5 2) 6 1 = getCell stripeSample 6 1"
  using bakeTableStripes_frame [of 2 4 5 2 2 stripeSample]
    bakeTableStripes_frame [of 2 3 5 2 2 stripeSample]
    bakeTableStripes_frame [of 2 4 5 3 2 stripeSample]
    bakeTableStripes_frame [of 2 6 5 1 2 stripeSample]
  by (simp add: stripeSample_def blankSheet_def emptyCell_def emptyStyle_def headerStyle_def
      getCell_def cells_setStyle hasSolidFill_def solid_def stripeStyle_def stripeColor_def
      stripeEven_def)

section \<open>The store: regeneration and labels\<close>


lemma map_shift_upt: "map (\<lambda>i. f (k + i)) [0..<n] = map f [k..<k + n]"
  by (induction n) simp_all

lemma generateFrom_ids:
  "generateDcMeasurementsFrom uuid k configs = Some ms \<Longrightarrow>
     map dcId ms = map uuid [k..<k + length ms]"
proof (induction configs arbitrary: k ms)
  case Nil
  then show ?case by simp
next
  case (Cons c configs)
  from Cons.prems obtain n later where n: "arrayLength (stringCount c) = Some n"
    and later: "generateDcMeasurementsFrom uuid (k + n) configs = Some later"
    and ms: "ms = map (\<lambda>i. createDcMeasurement (uuid (k + i)) (index c) (stringLabelAt i) None)
                    [0..<n] @ later"
    by (auto split: option.splits)
  have block: "map (\<lambda>i. uuid (k + i)) [0..<n] = map uuid [k..<k + n]"
    by (rule map_shift_upt)
  have "[k..<k + (n + length later)] = [k..<k + n] @ [k + n..<k + n + length later]"
    by (metis add.assoc le_add1 upt_add_eq_append)
  then show ?case
    using Cons.IH[OF later] by (simp add: ms createDcMeasurement_def o_def block)
qed

lemma generateFrom_unset:
  "generateDcMeasurementsFrom uuid k configs = Some ms \<Longrightarrow> list_all unsetRoot ms"
proof (induction configs arbitrary: k ms)
  case Nil
  then show ?case by simp
next
  case (Cons c configs)
  then show ?case
    by (auto simp: createDcMeasurement_def unsetRoot_def list_all_iff split: option.splits)
qed

lemma generateFrom_length:
  "generateDcMeasurementsFrom uuid k configs = Some ms \<Longrightarrow> length ms = stringTotal configs"
proof (induction configs arbitrary: k ms)
  case Nil
  then show ?case by (simp add: stringTotal_def)
next
  case (Cons c configs)
  then show ?case
    by (auto simp: stringTotal_def arrayLength_def split: option.splits if_splits)
qed

text \<open>The generation returns exactly when every string count is an array length.\<close>

lemma generateFrom_returns:
  "(\<exists>ms. generateDcMeasurementsFrom uuid k configs = Some ms) \<longleftrightarrow> stringCountsFit configs"
proof (induction configs arbitrary: k)
  case Nil
  show ?case by (simp add: stringCountsFit_def)
next
  case (Cons c configs)
  have fit: "stringCountsFit (c # configs) \<longleftrightarrow>
      stringCount c < 4294967296 \<and> stringCountsFit configs"
    by (simp add: stringCountsFit_def)
  show ?case
  proof (cases "stringCount c < 4294967296")
    case True
    then have n: "arrayLength (stringCount c) = Some (nat (stringCount c))"
      by (simp add: arrayLength_def)
    show ?thesis
      using Cons.IH[of "k + nat (stringCount c)"] True
      by (auto simp: fit n split: option.splits)
  next
    case False
    then show ?thesis by (simp add: fit arrayLength_def)
  qed
qed

lemma generate_returns:
  "stringCountsFit configs \<Longrightarrow> \<exists>ms. generateDcMeasurements uuid configs = Some ms"
  unfolding generateDcMeasurements_def using generateFrom_returns by blast

lemma generate_throws:
  "\<not> stringCountsFit configs \<Longrightarrow> generateDcMeasurements uuid configs = None"
  unfolding generateDcMeasurements_def using generateFrom_returns[of uuid 0 configs] by auto




lemma setInverterConfigs_returns:
  assumes "count < 4294967296"
    and "stringCountsFit (newConfigs (nat count) defaultStrings (inverterConfigs insp))"
  shows "\<exists>ms. generateDcMeasurements uuid
                (newConfigs (nat count) defaultStrings (inverterConfigs insp)) = Some ms \<and>
           setInverterConfigs uuid count defaultStrings insp =
             Returns (insp\<lparr>inverterConfigs :=
                              newConfigs (nat count) defaultStrings (inverterConfigs insp),
                            dcMeasurements := ms,
                            inverterSerials := generateInverterSerials
                              (newConfigs (nat count) defaultStrings (inverterConfigs insp))\<rparr>)"
proof -
  from generate_returns[OF assms(2)] obtain ms where
    ms: "generateDcMeasurements uuid
           (newConfigs (nat count) defaultStrings (inverterConfigs insp)) = Some ms"
    by blast
  from assms(1) have "arrayLength count = Some (nat count)"
    by (simp add: arrayLength_def)
  with ms show ?thesis
    by (simp add: setInverterConfigs_def Let_def)
qed

lemma updateInverterConfig_returns:
  assumes "findFirst (\<lambda>c. index c = idx) (inverterConfigs insp) \<noteq> None"
    and "stringCountsFit
           (updateFirst (\<lambda>c. index c = idx) (assignConfig updates) (inverterConfigs insp))"
  shows "\<exists>ms. generateDcMeasurements uuid
                (updateFirst (\<lambda>c. index c = idx) (assignConfig updates) (inverterConfigs insp)) =
                Some ms \<and>
           updateInverterConfig uuid idx updates insp =
             Returns (insp\<lparr>inverterConfigs :=
                              updateFirst (\<lambda>c. index c = idx) (assignConfig updates)
                                (inverterConfigs insp),
                            dcMeasurements := ms,
                            inverterSerials := generateInverterSerials
                              (updateFirst (\<lambda>c. index c = idx) (assignConfig updates)
                                (inverterConfigs insp))\<rparr>)"
proof -
  from generate_returns[OF assms(2)] obtain ms where
    ms: "generateDcMeasurements uuid
           (updateFirst (\<lambda>c. index c = idx) (assignConfig updates) (inverterConfigs insp)) =
           Some ms"
    by blast
  with assms(1) show ?thesis
    by (auto simp: updateInverterConfig_def Let_def)
qed

text \<open>
  When \<open>Array.from\<close> throws, the measurements and the serials are as they were: an inverter
  count that is no array length leaves the inspection as it was, and a string count that is
  none leaves the new configurations without their measurements.
\<close>

lemma setInverterConfigs_throws:
  "setInverterConfigs uuid count defaultStrings insp = Throws insp' \<Longrightarrow>
     dcMeasurements insp' = dcMeasurements insp \<and>
     inverterSerials insp' = inverterSerials insp \<and>
     (4294967296 \<le> count \<and> insp' = insp \<or>
      \<not> stringCountsFit (inverterConfigs insp'))"
proof -
  assume t: "setInverterConfigs uuid count defaultStrings insp = Throws insp'"
  show ?thesis
  proof (cases "count < 4294967296")
    case True
    then have n: "arrayLength count = Some (nat count)"
      by (simp add: arrayLength_def)
    let ?configs = "newConfigs (nat count) defaultStrings (inverterConfigs insp)"
    from t n have none: "generateDcMeasurements uuid ?configs = None"
      and eq: "insp' = insp\<lparr>inverterConfigs := ?configs\<rparr>"
      by (auto simp: setInverterConfigs_def Let_def split: option.splits)
    from none generate_returns[of ?configs uuid] have "\<not> stringCountsFit ?configs"
      by auto
    with eq show ?thesis by simp
  next
    case False
    with t show ?thesis
      by (simp add: setInverterConfigs_def arrayLength_def Let_def)
  qed
qed

lemma updateInverterConfig_throws:
  "updateInverterConfig uuid idx updates insp = Throws insp' \<Longrightarrow>
     dcMeasurements insp' = dcMeasurements insp \<and>
     inverterSerials insp' = inverterSerials insp \<and>
     inverterConfigs insp' =
       updateFirst (\<lambda>c. index c = idx) (assignConfig updates) (inverterConfigs insp) \<and>
     \<not> stringCountsFit (inverterConfigs insp')"
proof -
  assume t: "updateInverterConfig uuid idx updates insp = Throws insp'"
  let ?configs = "updateFirst (\<lambda>c. index c = idx) (assignConfig updates) (inverterConfigs insp)"
  from t have none: "generateDcMeasurements uuid ?configs = None"
    and eq: "insp' = insp\<lparr>inverterConfigs := ?configs\<rparr>"
    by (auto simp: updateInverterConfig_def Let_def split: option.splits)
  from none generate_returns[of ?configs uuid] have "\<not> stringCountsFit ?configs"
    by auto
  with eq show ?thesis by simp
qed





lemma grown_labels:
  "(case updateInverterConfig sampleUuid 2 growStrings twoInverters of
      Returns s \<Rightarrow> map (\<lambda>m. (inverterIndex m, stringLabel m, panelCount m)) (dcMeasurements s)
    | Throws s \<Rightarrow> []) =
   [(1, ascii ''A'', None), (1, ascii ''B'', None), (2, ascii ''A'', None),
    (2, ascii ''B'', None), (2, ascii ''C'', None)]"
  by code_simp



lemmas store_eval =
  addDcSubstring_def addDcString_def removeDcMeasurement_def nextChildLabel_def
  nextTopLevelLabel_def createDcMeasurement_def blankInspection_def STRING_LABELS_def
  ascii_def Let_def nestingDepth.simps truthy_def decimal.simps childrenOf_def
  rootA_def childA1_def childA2_def withDc_def

lemma sample_grows:
  "addDcString (ascii ''a'') 1 blankInspection = withDc [rootA]"
  "addDcSubstring (ascii ''b'') (ascii ''a'') (withDc [rootA]) = Some (withDc [rootA, childA1])"
  "addDcSubstring (ascii ''c'') (ascii ''a'') (withDc [rootA, childA1]) =
     Some (withDc [rootA, childA1, childA2])"
  by (simp_all add: store_eval)

lemma sample_shrinks:
  "removeDcMeasurement (Suc (Suc 0)) (ascii ''b'') (withDc [rootA, childA1, childA2]) =
     Some (withDc [rootA, childA2])"
  by (simp add: store_eval)

lemma addDcSubstring_label:
  assumes "addDcSubstring uid parent insp = Some insp'"
    and "dcMeasurements insp' \<noteq> dcMeasurements insp"
  shows "\<exists>p. findFirst (\<lambda>m. dcId m = parent) (dcMeasurements insp) = Some p \<and>
           dcMeasurements insp' = dcMeasurements insp @
             [createDcMeasurement uid (inverterIndex p)
                (stringLabel p @ ascii ''.'' @
                   decimal (length (childrenOf (dcMeasurements insp) (Some parent)) + 1))
                (Some parent)]"
  using assms
  by (auto simp: addDcSubstring_def nextChildLabel_def childrenOf_def Let_def
      split: option.splits if_splits)

text \<open>
  Claim C7. The label of a new child is the parent's label, a dot and the number of the
  parent's present children plus one. After a sibling was removed that number is taken
  again: a parent \<open>A\<close> left with the one child \<open>A.2\<close> gets a second child \<open>A.2\<close>, so
  sibling labels are not unique.
\<close>

theorem addDcSubstring_duplicate_label:
  "map_option (\<lambda>s. map stringLabel (childrenOf (dcMeasurements s) (Some (ascii ''a''))))
     (addDcSubstring (ascii ''d'') (ascii ''a'') (withDc [rootA, childA2])) =
     Some [ascii ''A.2'', ascii ''A.2'']"
  by (simp add: store_eval)

section \<open>The checklist filler\<close>

subsection \<open>Writes to cells, and merged ranges\<close>

lemma findFirst_miss: "findFirst p xs = None \<longleftrightarrow> \<not> list_ex p xs"
  by (induction xs) simp_all

lemma findFirst_hit: "findFirst p xs = Some x \<Longrightarrow> p x \<and> x \<in> set xs"
  by (induction xs) (auto split: if_splits)

lemma unmerged_master: "unmerged ws r c \<Longrightarrow> master ws r c = (r, c)"
  by (simp add: unmerged_def master_def findFirst_miss[symmetric])

text \<open>A cell that lies in no merged range is the master of no other cell.\<close>

lemma master_unmerged:
  assumes "unmerged ws r c" and "master ws r' c' = (r, c)"
  shows "r' = r \<and> c' = c"
proof (cases "findFirst (\<lambda>m. inRange m r' c') (merges ws)")
  case None
  with assms(2) show ?thesis by (simp add: master_def)
next
  case (Some m)
  from findFirst_hit[OF Some] have "inRange m (topRow m) (leftCol m)"
    by (simp add: inRange_def)
  moreover from findFirst_hit[OF Some] have "m \<in> set (merges ws)"
    by simp
  moreover from Some assms(2) have "topRow m = r" "leftCol m = c"
    by (simp_all add: master_def)
  ultimately have "list_ex (\<lambda>m. inRange m r c) (merges ws)"
    by (auto simp: list_ex_iff)
  with assms(1) show ?thesis by (simp add: unmerged_def)
qed

lemma unmerged_other:
  "unmerged ws r c \<Longrightarrow> r' \<noteq> r \<or> c' \<noteq> c \<Longrightarrow> master ws r' c' \<noteq> master ws r c"
  using master_unmerged[of ws r c r' c'] by (auto simp: unmerged_master)

lemma merges_setValue: "merges (setValue ws r c v) = merges ws"
  by (simp add: setValue_def putCell_def split: prod.splits)

lemma merges_setCell: "merges (setCell ws r c v) = merges ws"
  by (simp add: setCell_def merges_setValue split: jsvalue.splits)

lemma master_merges: "merges ws' = merges ws \<Longrightarrow> master ws' r c = master ws r c"
  by (simp add: master_def)

lemma unmerged_merges: "merges ws' = merges ws \<Longrightarrow> unmerged ws' r c = unmerged ws r c"
  by (simp add: unmerged_def)

lemma rowsUnmerged_merges:
  "merges ws' = merges ws \<Longrightarrow> rowsUnmerged ws' codeToRow codes = rowsUnmerged ws codeToRow codes"
proof -
  assume "merges ws' = merges ws"
  then have eq: "unmerged ws' = unmerged ws"
    by (intro ext) (simp add: unmerged_def)
  show ?thesis unfolding rowsUnmerged_def eq by (rule refl)
qed

lemma getValue_setValue:
  "getValue (setValue ws r c v) r' c' =
     (if master ws r' c' = master ws r c then v else getValue ws r' c')"
proof -
  have m: "master (setValue ws r c v) r' c' = master ws r' c'"
    by (rule master_merges) (rule merges_setValue)
  obtain mr mc where a: "master ws r c = (mr, mc)" by (cases "master ws r c")
  obtain nr nc where b: "master ws r' c' = (nr, nc)" by (cases "master ws r' c'")
  have "cvalue (cells (setValue ws r c v) nr nc) =
      (if (nr, nc) = (mr, mc) then v else cvalue (cells ws nr nc))"
    by (simp add: setValue_def a putCell_def getCell_def)
  then show ?thesis
    by (simp add: getValue_def m a b getCell_def)
qed

lemma cstyle_setValue: "cstyle (cells (setValue ws r c v) r' c') = cstyle (cells ws r' c')"
  by (simp add: setValue_def putCell_def getCell_def split: prod.splits)

lemma rest_setValue:
  "tables (setValue ws r c v) = tables ws" "autoFilter (setValue ws r c v) = autoFilter ws"
  by (simp_all add: setValue_def putCell_def split: prod.splits)

lemma cstyle_setCell: "cstyle (cells (setCell ws r c v) r' c') = cstyle (cells ws r' c')"
  by (simp add: setCell_def cstyle_setValue split: jsvalue.splits)

lemma getValue_setCell_other:
  "master ws r' c' \<noteq> master ws r c \<Longrightarrow> getValue (setCell ws r c v) r' c' = getValue ws r' c'"
  by (simp add: setCell_def getValue_setValue split: jsvalue.splits)


lemma getValue_setCell_JString:
  "getValue (setCell ws r c (JString s)) r' c' =
     (if master ws r' c' = master ws r c \<and> s \<noteq> [] then VString s else getValue ws r' c')"
  by (simp add: setCell_def getValue_setValue)

lemma rest_setCell:
  "tables (setCell ws r c v) = tables ws" "autoFilter (setCell ws r c v) = autoFilter ws"
  by (simp_all add: setCell_def rest_setValue split: jsvalue.splits)




subsection \<open>The address scan\<close>


lemma scanCodes_dom:
  "dom (scanCodes ws rows codes) =
     dom codes \<union> {code. \<exists>r \<in> set rows. trim (valueText (getValue ws r 1)) = code \<and>
                          matchesCode code}"
proof (induction rows arbitrary: codes)
  case Nil
  show ?case by simp
next
  case (Cons rowNumber rows)
  show ?case
    by (simp add: Let_def Cons.IH) blast
qed



lemma buildCodeToRowMap_found:
  "buildCodeToRowMap ws code \<noteq> None \<longleftrightarrow>
     (\<exists>r \<in> set (eachRow ws). trim (valueText (getValue ws r 1)) = code \<and> matchesCode code)"
proof -
  have "code \<in> dom (buildCodeToRowMap ws) \<longleftrightarrow>
     (\<exists>r \<in> set (eachRow ws). trim (valueText (getValue ws r 1)) = code \<and> matchesCode code)"
    unfolding buildCodeToRowMap_def scanCodes_dom by simp
  then show ?thesis by (simp add: dom_def)
qed

subsection \<open>The item loop and the header step\<close>


lemma fillChecklistItems_rest:
  "tables (fillChecklistItems ws codeToRow items) = tables ws \<and>
   autoFilter (fillChecklistItems ws codeToRow items) = autoFilter ws"
  by (induction items arbitrary: ws) (simp_all add: Let_def rest_setCell split: option.splits)

lemma fillChecklistItems_merges:
  "merges (fillChecklistItems ws codeToRow items) = merges ws"
  by (induction items arbitrary: ws) (simp_all add: Let_def merges_setCell split: option.splits)











text \<open>
  In a merged range a write goes to the master: with the cells C5 and D5 merged, the status
  of the item of row 5 is written to C5 and then the notes are, so that both columns read
  the notes and the status is lost.
\<close>

lemma fillChecklistSheet_merged_row:
  "master mergedSample 5 4 = (5, 3) \<and>
   status item13 = Some (ascii ''ok'') \<and>
   itemNotes item13 = Some (ascii ''loose'') \<and>
   buildCodeToRowMap (fillChecklistHeader mergedSample mergedInspection) (sectionCode item13) =
     Some 5 \<and>
   getValue (fillChecklistSheet mergedSample mergedInspection) 5 3 = VString (ascii ''loose'') \<and>
   getValue (fillChecklistSheet mergedSample mergedInspection) 5 4 = VString (ascii ''loose'')"
  by code_simp

section \<open>The AC filler: serial numbers\<close>

lemma fillAcItems_merges: "merges (fillAcItems ws codeToRow ms) = merges ws"
  by (induction ms arbitrary: ws) (simp_all add: Let_def merges_setCell split: option.splits)

lemma fillAcItems_style:
  "cstyle (cells (fillAcItems ws codeToRow ms) r c) = cstyle (cells ws r c)"
  by (induction ms arbitrary: ws) (simp_all add: Let_def cstyle_setCell split: option.splits)

lemma getValue_guarded_other:
  "master ws r c \<noteq> master ws row col \<Longrightarrow>
     getValue (if b then setCell ws row col v else ws) r c = getValue ws r c"
  by (simp add: getValue_setCell_other)

lemma fillAcItems_frame:
  "rowsUnmerged ws codeToRow (map itemCode ms) \<Longrightarrow> c \<noteq> 3 \<and> c \<noteq> 4 \<Longrightarrow>
     getValue (fillAcItems ws codeToRow ms) r c = getValue ws r c"
proof (induction ms arbitrary: ws)
  case Nil
  show ?case by simp
next
  case (Cons m ms)
  from Cons.prems(1) have un: "rowsUnmerged ws codeToRow (map itemCode ms)"
    by (simp add: rowsUnmerged_def)
  show ?case
  proof (cases "codeToRow (itemCode m)")
    case None
    then show ?thesis using Cons.IH[OF un Cons.prems(2)] by simp
  next
    case (Some row)
    let ?ws1 = "if result m \<noteq> JUndefined \<and> result m \<noteq> JString []
                then setCell ws row 3 (result m) else ws"
    let ?ws2 = "if truthy (acNotes m) then setCell ?ws1 row 4 (optString (acNotes m)) else ?ws1"
    from Cons.prems(1) Some have u: "unmerged ws row 3" "unmerged ws row 4"
      by (simp_all add: rowsUnmerged_def)
    have m1: "merges ?ws1 = merges ws" and m2: "merges ?ws2 = merges ws"
      by (simp_all add: merges_setCell)
    from Cons.prems(2) unmerged_other[OF u(1), of r c]
    have "master ws r c \<noteq> master ws row 3" by blast
    then have one: "getValue ?ws1 r c = getValue ws r c"
      by (rule getValue_guarded_other)
    from u(2) unmerged_merges[OF m1] have "unmerged ?ws1 row 4" by simp
    from Cons.prems(2) unmerged_other[OF this, of r c]
    have "master ?ws1 r c \<noteq> master ?ws1 row 4" by blast
    then have two: "getValue ?ws2 r c = getValue ?ws1 r c"
      by (rule getValue_guarded_other)
    from rowsUnmerged_merges[OF m2] un
    have "rowsUnmerged ?ws2 codeToRow (map itemCode ms)" by simp
    from Cons.IH[OF this Cons.prems(2)] one two Some show ?thesis
      by (simp add: Let_def)
  qed
qed

lemma fillAcItems_rest:
  "tables (fillAcItems ws codeToRow ms) = tables ws \<and>
   autoFilter (fillAcItems ws codeToRow ms) = autoFilter ws"
  by (induction ms arbitrary: ws) (simp_all add: Let_def rest_setCell split: option.splits)

lemma fillSerials_rest:
  "tables (fillSerials ws rows serials) = tables ws \<and>
   autoFilter (fillSerials ws rows serials) = autoFilter ws"
  by (induction serials arbitrary: ws) (simp_all add: Let_def rest_setCell)

lemma fillSerials_style:
  "cstyle (cells (fillSerials ws rows serials) r c) = cstyle (cells ws r c)"
  by (induction serials arbitrary: ws) (simp_all add: Let_def cstyle_setCell)

lemma fillSerials_merges: "merges (fillSerials ws rows serials) = merges ws"
  by (induction serials arbitrary: ws) (simp_all add: Let_def merges_setCell)

lemma fillSerials_append:
  "fillSerials ws rows (xs @ ys) = fillSerials (fillSerials ws rows xs) rows ys"
  by (induction xs arbitrary: ws) (simp_all add: Let_def)

lemma serial_guard:
  "(serialInverterIndex s - 1 \<ge> 0 \<and> serialInverterIndex s - 1 < int (length rows) \<and>
      serialNumber s \<noteq> []) = serialWritten rows s"
  by (auto simp: serialWritten_def)

lemma fillSerials_Cons:
  "fillSerials ws rows (s # serials) =
     fillSerials
       (if serialWritten rows s
        then setCell ws (rows ! nat (serialInverterIndex s - 1)) 3 (JString (serialNumber s))
        else ws)
       rows serials"
  by (auto simp: Let_def serialWritten_def)

lemma column3_merges:
  "merges ws' = merges ws \<Longrightarrow>
     list_all (\<lambda>r. unmerged ws' r 3) rows = list_all (\<lambda>r. unmerged ws r 3) rows"
  by (simp add: unmerged_def)

lemma serialWritten_row:
  "serialWritten rows s \<Longrightarrow> rows ! nat (serialInverterIndex s - 1) \<in> set rows"
  by (auto simp: serialWritten_def intro!: nth_mem)

lemma fillSerials_frame:
  "list_all (\<lambda>r. unmerged ws r 3) rows \<Longrightarrow> \<not> serialTarget rows serials r c \<Longrightarrow>
     getValue (fillSerials ws rows serials) r c = getValue ws r c"
proof (induction serials arbitrary: ws)
  case Nil
  show ?case by simp
next
  case (Cons s serials)
  let ?t = "rows ! nat (serialInverterIndex s - 1)"
  let ?ws1 = "if serialWritten rows s then setCell ws ?t 3 (JString (serialNumber s)) else ws"
  from Cons.prems(2) have rest: "\<not> serialTarget rows serials r c"
    by (auto simp: serialTarget_def)
  have "merges ?ws1 = merges ws" by (simp add: merges_setCell)
  from column3_merges[OF this] Cons.prems(1)
  have un: "list_all (\<lambda>r. unmerged ?ws1 r 3) rows" by simp
  have "getValue ?ws1 r c = getValue ws r c"
  proof (cases "serialWritten rows s")
    case True
    with Cons.prems(2) have "r \<noteq> ?t \<or> c \<noteq> 3"
      by (auto simp: serialTarget_def)
    moreover from serialWritten_row[OF True] Cons.prems(1) have "unmerged ws ?t 3"
      by (simp add: list_all_iff)
    ultimately have "master ws r c \<noteq> master ws ?t 3"
      using unmerged_other by blast
    then show ?thesis by (simp add: getValue_setCell_other)
  next
    case False
    then show ?thesis by simp
  qed
  with Cons.IH[OF un rest] show ?case
    unfolding fillSerials_Cons by simp
qed

text \<open>
  Of the records that are written to a marker row, the last in the list stays: a record
  after which no record of the same inverter index has a serial number.
\<close>

lemma fillSerials_written:
  assumes "distinct rows"
    and "list_all (\<lambda>r. unmerged ws r 3) rows"
    and "serialWritten rows serial"
    and "list_all (\<lambda>t. serialInverterIndex t = serialInverterIndex serial \<longrightarrow>
                      serialNumber t = []) after"
  shows "getValue (fillSerials ws rows (before @ serial # after))
           (rows ! nat (serialInverterIndex serial - 1)) 3 = VString (serialNumber serial)"
proof -
  let ?r = "rows ! nat (serialInverterIndex serial - 1)"
  let ?w = "fillSerials ws rows before"
  let ?w1 = "setCell ?w ?r 3 (JString (serialNumber serial))"
  have step: "fillSerials ws rows (before @ serial # after) = fillSerials ?w1 rows after"
    by (simp add: fillSerials_append fillSerials_Cons assms(3) del: fillSerials.simps)
  have "merges ?w1 = merges ws"
    by (simp add: merges_setCell fillSerials_merges)
  from column3_merges[OF this] assms(2)
  have un: "list_all (\<lambda>r. unmerged ?w1 r 3) rows" by simp
  have "\<not> serialTarget rows after ?r 3"
  proof
    assume "serialTarget rows after ?r 3"
    then obtain t where t: "t \<in> set after" "serialWritten rows t"
      "?r = rows ! nat (serialInverterIndex t - 1)"
      by (auto simp: serialTarget_def list_ex_iff)
    from t(2) assms(3)
    have "nat (serialInverterIndex t - 1) < length rows"
      "nat (serialInverterIndex serial - 1) < length rows"
      by (auto simp: serialWritten_def)
    with t(3) assms(1)
    have "nat (serialInverterIndex t - 1) = nat (serialInverterIndex serial - 1)"
      by (simp add: nth_eq_iff_index_eq)
    with t(2) assms(3) have "serialInverterIndex t = serialInverterIndex serial"
      by (auto simp: serialWritten_def)
    with assms(4) t(1) have "serialNumber t = []"
      by (auto simp: list_all_iff)
    with t(2) show False by (simp add: serialWritten_def)
  qed
  from fillSerials_frame[OF un this]
  have "getValue (fillSerials ?w1 rows after) ?r 3 = getValue ?w1 ?r 3" .
  also from assms(3) have "\<dots> = VString (serialNumber serial)"
    by (simp add: getValue_setCell_JString serialWritten_def)
  finally show ?thesis unfolding step .
qed

lemma findSerialRows_sorted: "sorted (findSerialRows ws) \<and> distinct (findSerialRows ws)"
  unfolding findSerialRows_def eachRow_def
  by (intro conjI sorted_wrt_filter distinct_filter sorted_upt distinct_upt)

text \<open>
  Claim C5 (as amended). Let none of the cells that the filler writes lie in a merged range
  (columns 3 and 4 of the rows that the address scan resolves for a measurement, and column
  3 of the marker rows). The marker rows are the rows, in ascending order, whose column-2
  text begins with the marker. A record with a non-empty serial number and an inverter index
  \<open>N\<close> between 1 and the number of marker rows has its serial number in column 3 of the
  \<open>N\<close>-th marker row after the fill, unless a later record of the list with the same
  inverter index has a serial number too (then the last such record has): the row is chosen
  by the record's inverter index, which is its position in the list only when the list
  holds the inverters \<open>1, 2, ...\<close> in order. A record with an empty serial number or an index
  outside the marker rows writes nothing: every cell that is not such a target reads as the
  measurement loop left it, and no style changes. What a cell holds is what \<open>cell.value\<close>
  reads.
\<close>

theorem fillAcSheet_serials:
  assumes "inverterSerials insp = before @ serial # after"
    and "list_all (\<lambda>t. serialInverterIndex t = serialInverterIndex serial \<longrightarrow>
                      serialNumber t = []) after"
    and "rowsUnmerged ws (buildCodeToRowMap ws) (map itemCode (acMeasurements insp))"
    and "list_all (\<lambda>r. unmerged ws r 3) (acSerialRows ws insp)"
  shows "(serialWritten (acSerialRows ws insp) serial \<longrightarrow>
            getValue (fillAcSheet ws insp)
              (acSerialRows ws insp ! nat (serialInverterIndex serial - 1)) 3 =
              VString (serialNumber serial)) \<and>
         (\<forall>r c. \<not> serialTarget (acSerialRows ws insp) (inverterSerials insp) r c \<longrightarrow>
            getValue (fillAcSheet ws insp) r c =
              getValue (fillAcItems ws (buildCodeToRowMap ws) (acMeasurements insp)) r c) \<and>
         (\<forall>r c. cstyle (getCell (fillAcSheet ws insp) r c) = cstyle (getCell ws r c)) \<and>
         sorted (acSerialRows ws insp) \<and> distinct (acSerialRows ws insp) \<and>
         (\<forall>r. r \<in> set (acSerialRows ws insp) \<longleftrightarrow>
            r \<in> set (eachRow (fillAcItems ws (buildCodeToRowMap ws) (acMeasurements insp))) \<and>
            startsWith (valueText (getValue ws r 2)) serialMarker)"
proof -
  let ?ws1 = "fillAcItems ws (buildCodeToRowMap ws) (acMeasurements insp)"
  let ?rows = "acSerialRows ws insp"
  have sheet: "fillAcSheet ws insp = fillSerials ?ws1 ?rows (inverterSerials insp)"
    by (simp add: fillAcSheet_def Let_def acSerialRows_def)
  have sd: "sorted ?rows \<and> distinct ?rows"
    unfolding acSerialRows_def by (rule findSerialRows_sorted)
  from column3_merges[OF fillAcItems_merges] assms(4)
  have un: "list_all (\<lambda>r. unmerged ?ws1 r 3) ?rows" by simp
  have w: "serialWritten ?rows serial \<longrightarrow>
      getValue (fillAcSheet ws insp) (?rows ! nat (serialInverterIndex serial - 1)) 3 =
        VString (serialNumber serial)"
    unfolding sheet assms(1)
    using fillSerials_written[OF _ un _ assms(2), of before] sd by blast
  have f: "\<forall>r c. \<not> serialTarget ?rows (inverterSerials insp) r c \<longrightarrow>
      getValue (fillAcSheet ws insp) r c = getValue ?ws1 r c"
    unfolding sheet using fillSerials_frame[OF un] by blast
  have s: "\<forall>r c. cstyle (getCell (fillAcSheet ws insp) r c) = cstyle (getCell ws r c)"
    by (simp add: sheet getCell_def fillSerials_style fillAcItems_style)
  have col2: "getValue ?ws1 r 2 = getValue ws r 2" for r
    by (rule fillAcItems_frame[OF assms(3)]) simp
  have m: "\<forall>r. r \<in> set ?rows \<longleftrightarrow>
      r \<in> set (eachRow ?ws1) \<and> startsWith (valueText (getValue ws r 2)) serialMarker"
    by (auto simp: acSerialRows_def findSerialRows_def col2)
  from w f s sd m show ?thesis by blast
qed

theorem fillAcSheet_serials_witness:
  "merges acSample = [titleRange] \<and>
   acSerialRows acSample acInspection = [3, 5] \<and>
   getValue (fillAcSheet acSample acInspection) 3 3 = VString (ascii ''SN-1'') \<and>
   getValue (fillAcSheet acSample acInspection) 5 3 = getValue acSample 5 3 \<and>
   inverterSerials twiceInspection = [serialOne, serialAgain, serialBlank] \<and>
   getValue (fillAcSheet acSample twiceInspection) 3 3 = VString (ascii ''SN-1b'')"
proof -
  have l: "inverterSerials acInspection = [] @ serialOne # [serialEmpty, serialBeyond]"
    "inverterSerials twiceInspection = [serialOne] @ serialAgain # [serialBlank]"
    by (simp_all add: acInspection_def twiceInspection_def)
  have a: "list_all (\<lambda>t. serialInverterIndex t = serialInverterIndex serialOne \<longrightarrow>
                      serialNumber t = []) [serialEmpty, serialBeyond]"
    "list_all (\<lambda>t. serialInverterIndex t = serialInverterIndex serialAgain \<longrightarrow>
                      serialNumber t = []) [serialBlank]"
    by code_simp+
  have u: "rowsUnmerged acSample (buildCodeToRowMap acSample)
      (map itemCode (acMeasurements acInspection))"
    "rowsUnmerged acSample (buildCodeToRowMap acSample)
      (map itemCode (acMeasurements twiceInspection))"
    by code_simp+
  have rows: "acSerialRows acSample acInspection = [3, 5]"
    "acSerialRows acSample twiceInspection = [3, 5]"
    by code_simp+
  have c: "list_all (\<lambda>r. unmerged acSample r 3) [3, 5]"
    by code_simp
  have w: "serialWritten [3, 5] serialOne" "serialWritten [3, 5] serialAgain"
    by code_simp+
  have t: "\<not> serialTarget [3, 5] (inverterSerials acInspection) 5 3"
    by code_simp
  have i: "nat (serialInverterIndex serialOne - 1) = 0"
    "nat (serialInverterIndex serialAgain - 1) = 0"
    by code_simp+
  have f: "fillAcItems acSample (buildCodeToRowMap acSample) (acMeasurements acInspection) = acSample"
    by (simp add: acInspection_def blankInspection_def)
  have g: "merges acSample = [titleRange]"
    by code_simp
  have k: "inverterSerials twiceInspection = [serialOne, serialAgain, serialBlank]"
    by (simp add: twiceInspection_def)
  have n: "serialNumber serialOne = ascii ''SN-1''" "serialNumber serialAgain = ascii ''SN-1b''"
    by (simp_all add: serialOne_def serialAgain_def)
  have c1: "list_all (\<lambda>r. unmerged acSample r 3) (acSerialRows acSample acInspection)"
    and c2: "list_all (\<lambda>r. unmerged acSample r 3) (acSerialRows acSample twiceInspection)"
    unfolding rows by (rule c)+
  note first = fillAcSheet_serials [OF l(1) a(1) u(1) c1, unfolded rows i]
  note second = fillAcSheet_serials [OF l(2) a(2) u(2) c2, unfolded rows i]
  from first w(1)
  have r1: "getValue (fillAcSheet acSample acInspection) ([3, 5] ! 0) 3 =
      VString (serialNumber serialOne)"
    by blast
  from first t
  have r2: "getValue (fillAcSheet acSample acInspection) 5 3 =
      getValue (fillAcItems acSample (buildCodeToRowMap acSample) (acMeasurements acInspection))
        5 3"
    by blast
  from second w(2)
  have r3: "getValue (fillAcSheet acSample twiceInspection) ([3, 5] ! 0) 3 =
      VString (serialNumber serialAgain)"
    by blast
  from r1 r2 r3 g rows(1) k show ?thesis
    by (simp add: n f)
qed

text \<open>
  Claim C5 as stated fails: the marker row is chosen by the record's inverter index, not
  by its position in the list. The only record of the list, with inverter index 2, goes to
  the second marker row (row 5), and the first marker row (row 3) stays empty.
\<close>

theorem fillAcSheet_position_counterexample:
  "inverterSerials loneSerialInspection = [serialTwo] \<and>
   acSerialRows acSample loneSerialInspection = [3, 5] \<and>
   unmerged acSample 3 3 \<and> unmerged acSample 5 3 \<and>
   getValue (fillAcSheet acSample loneSerialInspection) 3 3 = VNull \<and>
   getValue (fillAcSheet acSample loneSerialInspection) 5 3 = VString (ascii ''SN-2'')"
  by code_simp

section \<open>The export orchestrator\<close>

lemma rest_bakeTableStripes:
  "tables (bakeTableStripes ws s e cols) = tables ws \<and>
   autoFilter (bakeTableStripes ws s e cols) = autoFilter ws"
  by (simp add: bakeTableStripes_def rest_applyStripes)

lemma rest_fillChecklistSheet:
  "tables (fillChecklistSheet ws insp) = tables ws \<and>
   autoFilter (fillChecklistSheet ws insp) = autoFilter ws"
  by (simp add: fillChecklistSheet_def fillChecklistHeader_def Let_def fillChecklistItems_rest
      rest_setCell)

lemma rest_fillDcRows:
  "fillDcRows ws row tree = (ws', row') \<Longrightarrow>
     tables ws' = tables ws \<and> autoFilter ws' = autoFilter ws"
proof (induction tree arbitrary: ws row)
  case Nil
  then show ?case by simp
next
  case (Cons x tree)
  obtain m depth where x: "x = (m, depth)" by (cases x)
  from Cons.prems[unfolded x fillDcRows.simps Let_def]
  show ?case
    by (auto dest!: Cons.IH simp: rest_setCell)
qed

lemma rest_fillDcInverters:
  "fillDcInverters stack ws row ms configs = Some (ws', row') \<Longrightarrow>
     tables ws' = tables ws \<and> autoFilter ws' = autoFilter ws"
proof (induction configs arbitrary: ws row)
  case Nil
  then show ?case by simp
next
  case (Cons config configs)
  from Cons.prems obtain tree ws2 nextRow where
    "fillDcRows (setCell ws row 1 (JNumber (index config))) (row + 1) tree = (ws2, nextRow)"
    "fillDcInverters stack ws2 nextRow ms configs = Some (ws', row')"
    by (auto simp: Let_def split: option.splits prod.splits)
  from rest_fillDcRows[OF this(1)] Cons.IH[OF this(2)] show ?case
    by (simp add: rest_setCell)
qed

lemma rest_fillDcSheet:
  "fillDcSheet stack ws insp = Some (ws', lastRow) \<Longrightarrow>
     tables ws' = tables ws \<and> autoFilter ws' = autoFilter ws"
  by (auto simp: fillDcSheet_def split: option.splits prod.splits dest: rest_fillDcInverters)

lemma rest_fillAcSheet:
  "tables (fillAcSheet ws insp) = tables ws \<and> autoFilter (fillAcSheet ws insp) = autoFilter ws"
  by (simp add: fillAcSheet_def Let_def fillSerials_rest fillAcItems_rest)

lemma rest_fillDefectsFrom:
  "tables (fillDefectsFrom ws i ds) = tables ws \<and>
   autoFilter (fillDefectsFrom ws i ds) = autoFilter ws"
  by (induction ds arbitrary: ws i) (simp_all add: Let_def rest_setCell)

lemma rest_fillDefectsSheet:
  "tables (fillDefectsSheet ws ds) = tables ws \<and>
   autoFilter (fillDefectsSheet ws ds) = autoFilter ws"
  by (simp add: fillDefectsSheet_def rest_fillDefectsFrom)

lemma removeTables_tables:
  "tables (removeTables ws entries) =
     filter (\<lambda>t. \<forall>e \<in> set entries. truthy (tname e) \<longrightarrow> tname t \<noteq> tname e) (tables ws) \<and>
   autoFilter (removeTables ws entries) = autoFilter ws"
proof (induction entries arbitrary: ws)
  case Nil
  show ?case by simp
next
  case (Cons e entries)
  show ?case
    by (cases "tname e")
       (auto simp: Cons.IH removeTable_def truthy_def intro!: filter_cong)
qed

lemma stripTables_tables:
  "tables (stripTables ws) = filter unnamed (tables ws) \<and>
   autoFilter (stripTables ws) = autoFilter ws"
proof -
  have "filter (\<lambda>t. \<forall>e \<in> set (tables ws). truthy (tname e) \<longrightarrow> tname t \<noteq> tname e) (tables ws) =
      filter unnamed (tables ws)"
    by (rule filter_cong) (auto simp: unnamed_def)
  then show ?thesis
    by (simp add: stripTables_def removeTables_tables)
qed

lemma sheetTables_putWorksheet:
  "getWorksheet wb name = Some ws \<Longrightarrow> tables ws' = tables ws \<and> autoFilter ws' = autoFilter ws \<Longrightarrow>
     sheetTables (putWorksheet wb name ws') = sheetTables wb"
  by (induction wb) (auto simp: getWorksheet_def putWorksheet_def sheetTables_def)

lemma sheetTables_strip:
  "sheetTables (map (\<lambda>entry. (fst entry, stripTables (snd entry))) wb) =
     map (\<lambda>(name, ts, af). (name, filter unnamed ts, af)) (sheetTables wb)"
  by (simp add: sheetTables_def stripTables_tables)

lemma prepareWorkbook_tables:
  assumes "prepareWorkbook stack insp allDefects wb = Some wb'"
  shows "sheetTables wb' = map (\<lambda>(name, ts, af). (name, filter unnamed ts, af)) (sheetTables wb)"
proof -
  define wb1 where "wb1 = (case getWorksheet wb SHEET_CHECKLIST of
      None \<Rightarrow> wb
    | Some wsChecklist \<Rightarrow>
        putWorksheet wb SHEET_CHECKLIST
          (bakeTableStripes (fillChecklistSheet wsChecklist insp) 2 84 4))"
  have t1: "sheetTables wb1 = sheetTables wb"
    unfolding wb1_def
    by (auto split: option.splits intro!: sheetTables_putWorksheet
        simp: rest_bakeTableStripes rest_fillChecklistSheet)
  from assms obtain wb2 where
    wb2: "(case getWorksheet wb1 SHEET_DC of
             None \<Rightarrow> Some wb1
           | Some wsDc \<Rightarrow>
               (case fillDcSheet stack wsDc insp of
                  None \<Rightarrow> None
                | Some (wsDc1, dcLastRow) \<Rightarrow>
                    Some (putWorksheet wb1 SHEET_DC (bakeTableStripes wsDc1 2 dcLastRow 8)))) =
          Some wb2"
    unfolding prepareWorkbook_def Let_def wb1_def[symmetric]
    by (auto split: option.splits)
  have t2: "sheetTables wb2 = sheetTables wb1"
    using wb2
    by (auto split: option.splits prod.splits intro!: sheetTables_putWorksheet
        simp: rest_bakeTableStripes dest: rest_fillDcSheet)
  define wb3 where "wb3 = (case getWorksheet wb2 SHEET_AC of
      None \<Rightarrow> wb2
    | Some wsAc \<Rightarrow>
        putWorksheet wb2 SHEET_AC (bakeTableStripes (fillAcSheet wsAc insp) 2 42 4))"
  have t3: "sheetTables wb3 = sheetTables wb2"
    unfolding wb3_def
    by (auto split: option.splits intro!: sheetTables_putWorksheet
        simp: rest_bakeTableStripes rest_fillAcSheet)
  define ds where "ds = (case allDefects of Some given \<Rightarrow> given | None \<Rightarrow> defects insp)"
  define wb4 where "wb4 = (case getWorksheet wb3 SHEET_DEFECTS of
      None \<Rightarrow> wb3
    | Some wsDefects \<Rightarrow>
        putWorksheet wb3 SHEET_DEFECTS
          (bakeTableStripes (fillDefectsSheet wsDefects ds) 2 (max 2 (length ds + 1)) 4))"
  have t4: "sheetTables wb4 = sheetTables wb3"
    unfolding wb4_def
    by (auto split: option.splits intro!: sheetTables_putWorksheet
        simp: rest_bakeTableStripes rest_fillDefectsSheet)
  from assms wb2 have "wb' = map (\<lambda>entry. (fst entry, stripTables (snd entry))) wb4"
    unfolding prepareWorkbook_def Let_def wb1_def[symmetric] wb4_def wb3_def ds_def
    by auto
  then show ?thesis
    by (simp add: sheetTables_strip t1 t2 t3 t4)
qed

text \<open>A serializer that writes one byte per sheet: the number of its table objects.\<close>

text \<open>
  Claim C4. When the fetch of the template settles to a response that is not ok,
  \<open>downloadWorkbook\<close> throws (the error carries the status) and the browser has seen no
  effect: no object URL, no anchor click. More generally a run that does not complete
  leaves the browser untouched, and the browser changes only in a run in which the fetch
  succeeded, the bytes were parsed, the sheets were filled and stripped, and the workbook
  was serialized: then the effects are the object URL, the click and the revocation, in
  this order.
\<close>

theorem downloadWorkbook_all_or_nothing:
  "(\<forall>response. fetchTemplate env = Inr response \<and> \<not> ok response \<longrightarrow>
      downloadWorkbook env insp allDefects browser =
        (Inl (TemplateLoadFailed (httpStatus response)), browser)) \<and>
   (fst (downloadWorkbook env insp allDefects browser) \<noteq> Inr () \<longrightarrow>
      snd (downloadWorkbook env insp allDefects browser) = browser) \<and>
   (snd (downloadWorkbook env insp allDefects browser) \<noteq> browser \<longrightarrow>
      (\<exists>response wb wb1 outBuffer.
         fetchTemplate env = Inr response \<and> ok response \<and>
         xlsxLoad env (body response) = Inr wb \<and>
         prepareWorkbook (stackLimit env) insp allDefects wb = Some wb1 \<and>
         xlsxWrite env wb1 = Inr outBuffer \<and>
         downloadWorkbook env insp allDefects browser =
           (Inr (), browser @ [CreateObjectURL outBuffer,
                               AnchorClick (downloadName insp) outBuffer,
                               RevokeObjectURL])))"
  by (auto simp: downloadWorkbook_def loadTemplate_def split: sum.splits option.splits if_splits)

theorem downloadWorkbook_all_or_nothing_witness:
  "downloadWorkbook missingEnv blankInspection None [] = (Inl (TemplateLoadFailed 404), []) \<and>
   snd (downloadWorkbook (servingEnv tabledBook) blankInspection None []) \<noteq> [] \<and>
   fetchTemplate (servingEnv tabledBook) = Inr \<lparr>ok = True, httpStatus = 200, body = []\<rparr>"
proof -
  have a: "fetchTemplate missingEnv = Inr \<lparr>ok = False, httpStatus = 404, body = []\<rparr>"
    by (simp add: missingEnv_def)
  have b: "snd (downloadWorkbook (servingEnv tabledBook) blankInspection None []) \<noteq> []"
    by code_simp
  show ?thesis
    using downloadWorkbook_all_or_nothing [of missingEnv blankInspection None "[]"]
      downloadWorkbook_all_or_nothing [of "servingEnv tabledBook" blankInspection None "[]"] a b
    by (auto simp: servingEnv_def)
qed

text \<open>
  Claim C9 (as amended). When \<open>downloadWorkbook\<close> completes, the workbook it serialized
  and handed to the download has, on every sheet (a filler's or not), exactly the table
  objects of the template that have no name: every table with a non-empty name is gone.
  Sheet names and sheet-level autofilters are as in the template.
\<close>

theorem downloadWorkbook_strips_named_tables:
  assumes "downloadWorkbook env insp allDefects browser = (Inr (), browser')"
  shows "\<exists>wb wb1 outBuffer.
           loadTemplate env = Inr wb \<and>
           prepareWorkbook (stackLimit env) insp allDefects wb = Some wb1 \<and>
           xlsxWrite env wb1 = Inr outBuffer \<and>
           AnchorClick (downloadName insp) outBuffer \<in> set browser' \<and>
           sheetTables wb1 =
             map (\<lambda>(name, ts, af). (name, filter unnamed ts, af)) (sheetTables wb) \<and>
           (\<forall>entry \<in> set wb1. \<forall>t \<in> set (tables (snd entry)). \<not> truthy (tname t))"
proof -
  from assms obtain wb wb1 outBuffer where
    steps: "loadTemplate env = Inr wb"
      "prepareWorkbook (stackLimit env) insp allDefects wb = Some wb1"
      "xlsxWrite env wb1 = Inr outBuffer"
      "AnchorClick (downloadName insp) outBuffer \<in> set browser'"
    by (auto simp: downloadWorkbook_def split: sum.splits option.splits)
  note t = prepareWorkbook_tables[OF steps(2)]
  have "\<not> truthy (tname t)" if "entry \<in> set wb1" "t \<in> set (tables (snd entry))" for entry t
  proof -
    from that(1) have "(fst entry, tables (snd entry), autoFilter (snd entry)) \<in> set (sheetTables wb1)"
      by (auto simp: sheetTables_def)
    with t that(2) show ?thesis
      by (auto simp: unnamed_def)
  qed
  with steps t show ?thesis by blast
qed

theorem downloadWorkbook_strips_named_tables_witness:
  "downloadWorkbook (servingEnv tabledBook) blankInspection None [] =
     (Inr (), [CreateObjectURL [0, 0], AnchorClick (downloadName blankInspection) [0, 0],
               RevokeObjectURL]) \<and>
   map_option sheetTables (prepareWorkbook 0 blankInspection None tabledBook) =
     Some [(SHEET_DEFECTS, [], None), (ascii ''Notes'', [], None)]"
proof -
  have run: "downloadWorkbook (servingEnv tabledBook) blankInspection None [] =
     (Inr (), [CreateObjectURL [0, 0], AnchorClick (downloadName blankInspection) [0, 0],
               RevokeObjectURL])"
    by code_simp
  have tabs: "sheetTables tabledBook =
      [(SHEET_DEFECTS, [namedTable], None), (ascii ''Notes'', [namedTable], None)]"
    by (simp add: sheetTables_def tabledBook_def tabledSheet_def blankSheet_def)
  have u: "\<not> unnamed namedTable"
    by (simp add: unnamed_def truthy_def namedTable_def ascii_def)
  show ?thesis
    using downloadWorkbook_strips_named_tables [OF run] run
    by (auto simp: loadTemplate_def servingEnv_def tabs u)
qed

text \<open>
  Claim C9 as stated fails: a table object without a name is not removed, and the
  sheet-level autofilter is never touched. The export of a workbook whose sheet has a
  nameless table, a named table and an autofilter completes, and the written workbook still
  has the nameless table and the autofilter.
\<close>

theorem downloadWorkbook_leftover_counterexample:
  "downloadWorkbook (servingEnv leftoverBook) blankInspection None [] =
     (Inr (), [CreateObjectURL [1], AnchorClick (downloadName blankInspection) [1],
               RevokeObjectURL]) \<and>
   map_option sheetTables (prepareWorkbook 0 blankInspection None leftoverBook) =
     Some [(ascii ''Notes'', [namelessTable], Some (ascii ''A1:B1''))]"
  by code_simp

section \<open>The depth-first order of the DC measurements\<close>

lemma walk_preorder:
  "walk stack ms parent depth acc = Some r \<Longrightarrow>
     \<exists>res. preorder ms (childrenOf ms parent) res \<and> map fst r = map fst acc @ res"
  and walkEach_preorder:
  "walkEach stack ms cs depth acc = Some r \<Longrightarrow>
     \<exists>res. preorder ms cs res \<and> map fst r = map fst acc @ res"
proof (induction stack ms parent depth acc and stack ms cs depth acc arbitrary: r and r
    rule: walk_walkEach.induct)
  case (1 forInverter parent depth res)
  then show ?case by simp
next
  case (2 stack forInverter parent depth res)
  then show ?case by simp
next
  case (3 stack forInverter depth res)
  then show ?case by (auto intro: preorder_Nil)
next
  case (4 stack forInverter m ms depth res)
  from "4.prems" obtain r1 where
    r1: "walk stack forInverter (Some (dcId m)) (depth + 1) (res @ [(m, depth)]) = Some r1"
    and r2: "walkEach stack forInverter ms depth r1 = Some r"
    by (auto split: option.splits)
  from "4.IH"(1)[OF r1] obtain sub where
    sub: "preorder forInverter (childrenOf forInverter (Some (dcId m))) sub"
      "map fst r1 = map fst (res @ [(m, depth)]) @ sub"
    by blast
  from "4.IH"(2)[OF r1 r2] obtain later where
    later: "preorder forInverter ms later" "map fst r = map fst r1 @ later"
    by blast
  from sub(1) later(1) have "preorder forInverter (m # ms) (m # sub @ later)"
    by (rule preorder_Cons)
  moreover have "map fst r = map fst res @ (m # sub @ later)"
    using sub(2) later(2) by simp
  ultimately show ?case
    by blast
qed

subsection \<open>Chains of parent links\<close>

lemma below_in_set: "below ms k a x \<Longrightarrow> a \<in> set ms \<Longrightarrow> x \<in> set ms"
  by (induction k arbitrary: a) auto

lemma below_add:
  "below ms (i + j) a x \<longleftrightarrow> (\<exists>b. below ms i a b \<and> below ms j b x)"
  by (induction i arbitrary: a) auto

lemma below_Suc_right:
  "below ms (Suc k) a x \<longleftrightarrow> (\<exists>p. below ms k a p \<and> x \<in> set ms \<and> parentId x = Some (dcId p))"
proof -
  have "below ms (Suc k) a x \<longleftrightarrow> (\<exists>b. below ms k a b \<and> below ms 1 b x)"
    using below_add[of ms k 1 a x] by simp
  then show ?thesis by auto
qed

lemma below_has_parent: "below ms (Suc k) a x \<Longrightarrow> parentId x \<noteq> None"
  by (auto simp: below_Suc_right simp del: below.simps)

lemma same_id:
  "distinct (map dcId ms) \<Longrightarrow> p \<in> set ms \<Longrightarrow> q \<in> set ms \<Longrightarrow> dcId p = dcId q \<Longrightarrow> p = q"
  by (meson distinct_map inj_onD)

text \<open>With distinct identifiers, the ancestor a given number of steps up is unique.\<close>

lemma ancestor_unique:
  assumes "distinct (map dcId ms)"
  shows "below ms k a x \<Longrightarrow> below ms k b x \<Longrightarrow> a \<in> set ms \<Longrightarrow> b \<in> set ms \<Longrightarrow> a = b"
proof (induction k arbitrary: x)
  case 0
  then show ?case by simp
next
  case (Suc k)
  from Suc.prems(1) obtain p where p: "below ms k a p" "parentId x = Some (dcId p)"
    by (auto simp: below_Suc_right simp del: below.simps)
  from Suc.prems(2) obtain q where q: "below ms k b q" "parentId x = Some (dcId q)"
    by (auto simp: below_Suc_right simp del: below.simps)
  from p(1) q(1) Suc.prems(3,4) have "p \<in> set ms" "q \<in> set ms"
    by (auto dest: below_in_set)
  with p(2) q(2) assms have "p = q"
    by (auto intro: same_id)
  with p(1) q(1) Suc.IH Suc.prems(3,4) show ?case by blast
qed

lemma rootedAt_unique:
  assumes d: "distinct (map dcId ms)"
    and "rootedAt ms i x" and "rootedAt ms j x"
  shows "i = j"
proof -
  have aux: False if "i < j" "rootedAt ms i x" "rootedAt ms j x" for i j x
  proof -
    from that obtain r s where r: "r \<in> set ms" "parentId r = None" "below ms i r x"
      and s: "s \<in> set ms" "parentId s = None" "below ms j s x"
      by (auto simp: rootedAt_def)
    from \<open>i < j\<close> obtain e where j: "j = Suc e + i"
      by (metis add.commute add_Suc_right less_imp_Suc_add)
    with s(3) obtain b where b: "below ms (Suc e) s b" "below ms i b x"
      by (auto simp only: below_add)
    from b(1) s(1) have "b \<in> set ms" by (rule below_in_set)
    from ancestor_unique[OF d b(2) r(3) this r(1)] have "b = r" .
    with below_has_parent[OF b(1)] r(2) show False by simp
  qed
  show ?thesis
    using aux[of i j x] aux[of j i x] assms(2,3) by (cases i j rule: linorder_cases) auto
qed

lemma rootedAt_child:
  "rootedAt ms d a \<Longrightarrow> c \<in> set ms \<Longrightarrow> parentId c = Some (dcId a) \<Longrightarrow> rootedAt ms (Suc d) c"
  unfolding rootedAt_def by (auto simp only: below_Suc_right)

lemma rootedAt_below:
  "rootedAt ms d a \<Longrightarrow> below ms k a x \<Longrightarrow> rootedAt ms (d + k) x"
  unfolding rootedAt_def using below_add[of ms d k] by blast

lemma rootedAt_in_set: "rootedAt ms d x \<Longrightarrow> x \<in> set ms"
  by (auto simp: rootedAt_def dest: below_in_set)

text \<open>A rooted measurement has one ancestor on every level above it: levels stay below the
  length of the list.\<close>

lemma rootedAt_less_length:
  assumes d: "distinct (map dcId ms)" and "rootedAt ms n x"
  shows "n < length ms"
proof -
  from assms(2) obtain r where r: "r \<in> set ms" "parentId r = None" "below ms n r x"
    by (auto simp: rootedAt_def)
  have "\<exists>a. rootedAt ms i a" if "i \<le> n" for i
  proof -
    from that r(3) obtain a where "below ms i r a"
      using below_add[of ms i "n - i" r x] by auto
    with r show ?thesis by (auto simp: rootedAt_def)
  qed
  then obtain f where f: "\<And>i. i \<le> n \<Longrightarrow> rootedAt ms i (f i)"
    by metis
  have "inj_on f {..n}"
  proof (rule inj_onI)
    fix i j assume "i \<in> {..n}" "j \<in> {..n}" "f i = f j"
    with f[of i] f[of j] show "i = j"
      by (auto intro: rootedAt_unique[OF d])
  qed
  moreover have "f ` {..n} \<subseteq> set ms"
    using f by (auto dest: rootedAt_in_set)
  ultimately have "card {..n} \<le> card (set ms)"
    by (metis card_inj_on_le List.finite_set)
  also have "\<dots> \<le> length ms" by (rule card_length)
  finally show ?thesis by simp
qed

subsection \<open>Order in a list\<close>

lemma precedes_iff:
  "precedes xs x y \<longleftrightarrow> (\<exists>as bs. xs = as @ x # bs \<and> x \<notin> set as \<and> y \<in> set bs)"
proof
  assume p: "precedes xs x y"
  let ?P = "\<lambda>z. z \<noteq> x"
  from p have ne: "dropWhile ?P xs \<noteq> []"
    by (auto simp: precedes_def)
  then have "hd (dropWhile ?P xs) = x"
    using hd_dropWhile[of ?P xs] by simp
  with ne have d: "dropWhile ?P xs = x # tl (dropWhile ?P xs)"
    by (metis list.collapse)
  have "xs = takeWhile ?P xs @ dropWhile ?P xs"
    by simp
  with d have "xs = takeWhile ?P xs @ x # tl (dropWhile ?P xs)"
    by metis
  moreover have "x \<notin> set (takeWhile ?P xs)"
    by (auto dest: set_takeWhileD)
  moreover from p have "y \<in> set (tl (dropWhile ?P xs))"
    by (simp add: precedes_def)
  ultimately show "\<exists>as bs. xs = as @ x # bs \<and> x \<notin> set as \<and> y \<in> set bs"
    by blast
next
  assume "\<exists>as bs. xs = as @ x # bs \<and> x \<notin> set as \<and> y \<in> set bs"
  then obtain as bs where s: "xs = as @ x # bs" "x \<notin> set as" "y \<in> set bs"
    by blast
  from s(2) have "dropWhile (\<lambda>z. z \<noteq> x) (as @ x # bs) = dropWhile (\<lambda>z. z \<noteq> x) (x # bs)"
    by (intro dropWhile_append2) auto
  with s show "precedes xs x y"
    by (simp add: precedes_def)
qed

lemma precedes_split:
  "x \<notin> set as \<Longrightarrow> y \<in> set bs \<Longrightarrow> precedes (as @ x # bs) x y"
  unfolding precedes_iff by blast

lemma precedes_append_right:
  assumes "precedes xs x y"
  shows "precedes (xs @ cs) x y"
proof -
  from assms obtain as bs where "xs = as @ x # bs" "x \<notin> set as" "y \<in> set bs"
    unfolding precedes_iff by blast
  then have "xs @ cs = as @ x # (bs @ cs)" "x \<notin> set as" "y \<in> set (bs @ cs)"
    by simp_all
  then show ?thesis
    unfolding precedes_iff by blast
qed

lemma precedes_append_left:
  assumes "precedes ys x y" and "x \<notin> set zs"
  shows "precedes (zs @ ys) x y"
proof -
  from assms(1) obtain as bs where "ys = as @ x # bs" "x \<notin> set as" "y \<in> set bs"
    unfolding precedes_iff by blast
  with assms(2) have "zs @ ys = (zs @ as) @ x # bs" "x \<notin> set (zs @ as)" "y \<in> set bs"
    by simp_all
  then show ?thesis
    unfolding precedes_iff by blast
qed

lemma precedes_across:
  assumes "x \<in> set zs" and "y \<in> set ys"
  shows "precedes (zs @ ys) x y"
proof -
  from assms(1) obtain as bs where "zs = as @ x # bs" "x \<notin> set as"
    by (auto dest: split_list_first)
  with assms(2) have "zs @ ys = as @ x # (bs @ ys)" "x \<notin> set as" "y \<in> set (bs @ ys)"
    by simp_all
  then show ?thesis
    unfolding precedes_iff by blast
qed

lemma precedes_in_set: "precedes xs x y \<Longrightarrow> x \<in> set xs \<and> y \<in> set xs"
  unfolding precedes_iff by auto

lemma precedes_Cons:
  "precedes (m # rest) s t \<longleftrightarrow> (if s = m then t \<in> set rest else precedes rest s t)"
  by (auto simp: precedes_def)

lemma precedes_filter:
  assumes "precedes xs s t" and "P s" and "P t"
  shows "precedes (filter P xs) s t"
proof -
  from assms(1) obtain as bs where "xs = as @ s # bs" "s \<notin> set as" "t \<in> set bs"
    unfolding precedes_iff by blast
  with assms(2,3) have "filter P xs = filter P as @ s # filter P bs" "s \<notin> set (filter P as)"
    "t \<in> set (filter P bs)"
    by simp_all
  then show ?thesis
    unfolding precedes_iff by blast
qed

subsection \<open>What a pre-order lists, and where\<close>

lemma preorder_sound:
  "preorder ms cs res \<Longrightarrow> x \<in> set res \<Longrightarrow> \<exists>c \<in> set cs. \<exists>k. below ms k c x"
proof (induction arbitrary: x rule: preorder.induct)
  case preorder_Nil
  then show ?case by simp
next
  case (preorder_Cons m sub rest later)
  from preorder_Cons.prems consider "x = m" | "x \<in> set sub" | "x \<in> set later"
    by auto
  then show ?case
  proof cases
    case 1
    have "below ms 0 m x" using 1 by simp
    then show ?thesis by (metis list.set_intros(1))
  next
    case 2
    from preorder_Cons.IH(1)[OF 2] obtain c k where
      "c \<in> set ms" "parentId c = Some (dcId m)" "below ms k c x"
      by (auto simp: childrenOf_def)
    then have "below ms (Suc k) m x" by auto
    then show ?thesis by (metis list.set_intros(1))
  next
    case 3
    from preorder_Cons.IH(2)[OF 3] show ?thesis by auto
  qed
qed

lemma preorder_complete:
  "preorder ms cs res \<Longrightarrow> c \<in> set cs \<Longrightarrow> below ms k c x \<Longrightarrow> x \<in> set res"
proof (induction arbitrary: c k x rule: preorder.induct)
  case preorder_Nil
  then show ?case by simp
next
  case (preorder_Cons m sub rest later)
  show ?case
  proof (cases "c = m")
    case True
    show ?thesis
    proof (cases k)
      case 0
      with preorder_Cons.prems True show ?thesis by simp
    next
      case (Suc j)
      with preorder_Cons.prems True obtain c' where
        "c' \<in> set ms" "parentId c' = Some (dcId m)" "below ms j c' x"
        by auto
      then have "c' \<in> set (childrenOf ms (Some (dcId m)))" "below ms j c' x"
        by (simp_all add: childrenOf_def)
      from preorder_Cons.IH(1)[OF this] show ?thesis by simp
    qed
  next
    case False
    with preorder_Cons.prems have "c \<in> set rest" by simp
    from preorder_Cons.IH(2)[OF this preorder_Cons.prems(2)] show ?thesis by simp
  qed
qed

lemma preorder_segment:
  "preorder ms cs res \<Longrightarrow> x \<in> set res \<Longrightarrow>
     \<exists>as sub bs. res = as @ x # sub @ bs \<and> preorder ms (childrenOf ms (Some (dcId x))) sub"
proof (induction arbitrary: x rule: preorder.induct)
  case preorder_Nil
  then show ?case by simp
next
  case (preorder_Cons m sub rest later)
  from preorder_Cons.prems consider "x = m" | "x \<in> set sub" | "x \<in> set later"
    by auto
  then show ?case
  proof cases
    case 1
    have "m # sub @ later = [] @ x # sub @ later" using 1 by simp
    with preorder_Cons.hyps(1) 1 show ?thesis by blast
  next
    case 2
    from preorder_Cons.IH(1)[OF 2] obtain as s bs where
      "sub = as @ x # s @ bs" "preorder ms (childrenOf ms (Some (dcId x))) s"
      by blast
    then have "m # sub @ later = (m # as) @ x # s @ (bs @ later)"
      "preorder ms (childrenOf ms (Some (dcId x))) s"
      by simp_all
    then show ?thesis by blast
  next
    case 3
    from preorder_Cons.IH(2)[OF 3] obtain as s bs where
      "later = as @ x # s @ bs" "preorder ms (childrenOf ms (Some (dcId x))) s"
      by blast
    then have "m # sub @ later = (m # sub @ as) @ x # s @ bs"
      "preorder ms (childrenOf ms (Some (dcId x))) s"
      by simp_all
    then show ?thesis by blast
  qed
qed

subsection \<open>No measurement is listed twice\<close>

lemma preorder_distinct:
  assumes d: "distinct (map dcId ms)"
  shows "preorder ms cs res \<Longrightarrow> distinct cs \<Longrightarrow> (\<forall>c \<in> set cs. rootedAt ms n c) \<Longrightarrow> distinct res"
proof (induction arbitrary: n rule: preorder.induct)
  case preorder_Nil
  show ?case by simp
next
  case (preorder_Cons m sub rest later)
  let ?kids = "childrenOf ms (Some (dcId m))"
  from d have dms: "distinct ms" by (simp add: distinct_map)
  from preorder_Cons.prems have m: "rootedAt ms n m" and rest: "\<forall>c \<in> set rest. rootedAt ms n c"
    and mrest: "m \<notin> set rest" and drest: "distinct rest"
    by auto
  have kids: "\<forall>c \<in> set ?kids. rootedAt ms (Suc n) c"
    using m by (auto simp: childrenOf_def intro: rootedAt_child)
  have dkids: "distinct ?kids"
    using dms by (simp add: childrenOf_def)
  from preorder_Cons.IH(1)[OF dkids kids] have dsub: "distinct sub" .
  from preorder_Cons.IH(2)[OF drest rest] have dlater: "distinct later" .
  have in_sub: "\<exists>k. below ms (Suc k) m x" if "x \<in> set sub" for x
  proof -
    from preorder_sound[OF preorder_Cons.hyps(1) that] obtain c k where
      "c \<in> set ms" "parentId c = Some (dcId m)" "below ms k c x"
      by (auto simp: childrenOf_def)
    then have "below ms (Suc k) m x" by auto
    then show ?thesis ..
  qed
  have in_later: "\<exists>c \<in> set rest. \<exists>k. below ms k c x" if "x \<in> set later" for x
    using preorder_sound[OF preorder_Cons.hyps(2) that] .
  have "m \<notin> set sub"
  proof
    assume "m \<in> set sub"
    from in_sub[OF this] obtain k where "below ms (Suc k) m m" ..
    from rootedAt_below[OF m this] m have "n + Suc k = n"
      by (rule rootedAt_unique[OF d])
    then show False by simp
  qed
  moreover have "m \<notin> set later"
  proof
    assume "m \<in> set later"
    from in_later[OF this] obtain c k where c: "c \<in> set rest" "below ms k c m"
      by blast
    from rest c(1) have rc: "rootedAt ms n c" by blast
    from rootedAt_below[OF rc c(2)] m have "n + k = n"
      by (rule rootedAt_unique[OF d])
    with c(2) have "m = c" by simp
    with c(1) mrest show False by simp
  qed
  moreover have "set sub \<inter> set later = {}"
  proof (rule ccontr)
    assume "set sub \<inter> set later \<noteq> {}"
    then obtain x where x: "x \<in> set sub" "x \<in> set later" by blast
    from in_sub[OF x(1)] obtain k where k: "below ms (Suc k) m x" ..
    from in_later[OF x(2)] obtain c j where c: "c \<in> set rest" "below ms j c x"
      by blast
    from rest c(1) have rc: "rootedAt ms n c" by blast
    from rootedAt_below[OF m k] rootedAt_below[OF rc c(2)] have "n + Suc k = n + j"
      by (rule rootedAt_unique[OF d])
    then have "j = Suc k" by simp
    with c(2) have "below ms (Suc k) c x" by simp
    from ancestor_unique[OF d k this rootedAt_in_set[OF m] rootedAt_in_set[OF rc]]
    have "m = c" .
    with c(1) mrest show False by simp
  qed
  ultimately show ?case
    using dsub dlater by simp
qed

subsection \<open>Siblings and their subtrees, in order\<close>

lemma preorder_family:
  "preorder ms cs res \<Longrightarrow> distinct res \<Longrightarrow> precedes cs s t \<Longrightarrow> below ms k s x \<Longrightarrow>
     precedes res x t"
proof (induction rule: preorder.induct)
  case preorder_Nil
  then show ?case by (simp add: precedes_def)
next
  case (preorder_Cons m sub rest later)
  note whole = preorder.preorder_Cons[OF preorder_Cons.hyps]
  show ?case
  proof (cases "s = m")
    case True
    with preorder_Cons.prems(2) have "t \<in> set rest"
      by (simp add: precedes_Cons)
    then have t: "t \<in> set later"
      using preorder_complete[OF preorder_Cons.hyps(2), of t 0 t] by simp
    have "x \<in> set (m # sub @ later)"
      using preorder_complete[OF whole, of m k x] preorder_Cons.prems(3) True by simp
    moreover have "x \<notin> set later"
    proof
      assume "x \<in> set later"
      moreover have "x \<in> set (m # sub)"
      proof (cases k)
        case 0
        with preorder_Cons.prems(3) True show ?thesis by simp
      next
        case (Suc j)
        with preorder_Cons.prems(3) True obtain c where
          "c \<in> set (childrenOf ms (Some (dcId m)))" "below ms j c x"
          by (auto simp: childrenOf_def)
        from preorder_complete[OF preorder_Cons.hyps(1) this] show ?thesis by simp
      qed
      ultimately show False
        using preorder_Cons.prems(1) by auto
    qed
    ultimately have "x \<in> set (m # sub)" by auto
    from precedes_across[OF this t] show ?thesis by simp
  next
    case False
    with preorder_Cons.prems(2) have p: "precedes rest s t"
      by (simp add: precedes_Cons)
    from preorder_Cons.prems(1) have "distinct later" by simp
    from preorder_Cons.IH(2)[OF this p preorder_Cons.prems(3)] have pl: "precedes later x t" .
    then have "x \<in> set later" by (simp add: precedes_in_set)
    with preorder_Cons.prems(1) have "x \<notin> set (m # sub)" by auto
    from precedes_append_left[OF pl this] show ?thesis by simp
  qed
qed

subsection \<open>The walk returns when the stack is deeper than the list is long\<close>

lemma walk_returns:
  assumes d: "distinct (map dcId ms)"
  shows "depth \<le> length ms \<Longrightarrow> length ms < stack + depth \<Longrightarrow>
           (\<forall>c \<in> set (childrenOf ms parent). rootedAt ms depth c) \<Longrightarrow>
           walk stack ms parent depth acc \<noteq> None"
    and "length ms \<le> stack + depth \<Longrightarrow> (\<forall>c \<in> set cs. rootedAt ms depth c) \<Longrightarrow>
           walkEach stack ms cs depth acc \<noteq> None"
  using d
proof (induction stack ms parent depth acc and stack ms cs depth acc
    rule: walk_walkEach.induct)
  case (1 forInverter parent depth res)
  then show ?case by simp
next
  case (2 stack forInverter parent depth res)
  from "2.prems" show ?case
    by (simp add: "2.IH")
next
  case (3 stack forInverter depth res)
  show ?case by simp
next
  case (4 stack forInverter m ms depth res)
  from "4.prems" have m: "rootedAt forInverter depth m"
    and rest: "\<forall>c \<in> set ms. rootedAt forInverter depth c"
    by auto
  from rootedAt_less_length[OF "4.prems"(3) m] have lt: "depth < length forInverter" .
  have kids: "\<forall>c \<in> set (childrenOf forInverter (Some (dcId m))). rootedAt forInverter (depth + 1) c"
    using m by (auto simp: childrenOf_def intro: rootedAt_child)
  from lt "4.prems"(1) have
    "walk stack forInverter (Some (dcId m)) (depth + 1) (res @ [(m, depth)]) \<noteq> None"
    by (intro "4.IH"(1) kids "4.prems"(3)) auto
  then obtain r1 where
    r1: "walk stack forInverter (Some (dcId m)) (depth + 1) (res @ [(m, depth)]) = Some r1"
    by blast
  from "4.IH"(2)[OF r1 "4.prems"(1) rest "4.prems"(3)] r1 show ?case
    by simp
qed

text \<open>
  Claim C2 (as amended). Let the measurements of the inverter have pairwise distinct
  identifiers, and let the call stack be deeper than their number. Then
  \<open>getOrderedDcTree\<close> returns, and its result lists, each once, exactly those measurements
  of the inverter that parent links within the inverter connect to a root (all of them when
  they form a forest; one whose parent is missing or belongs to another inverter is left
  out). A listed measurement comes before every one of its descendants; and of two listed
  siblings, the one earlier in the underlying list comes first, together with all its
  descendants, before the later one.
\<close>

theorem getOrderedDcTree_preorder:
  assumes "distinct (map dcId (forInverter measurements inverter))"
    and "length (forInverter measurements inverter) < stack"
  shows "\<exists>tree. getOrderedDcTree stack measurements inverter = Some tree \<and>
           distinct (map fst tree) \<and>
           (\<forall>m. m \<in> set (map fst tree) \<longleftrightarrow>
                  m \<in> set (forInverter measurements inverter) \<and>
                  rooted (forInverter measurements inverter) m) \<and>
           (\<forall>a x. a \<in> set (map fst tree) \<and>
                  descendant (forInverter measurements inverter) a x \<longrightarrow>
                  precedes (map fst tree) a x) \<and>
           (\<forall>s t x. s \<in> set (map fst tree) \<and> t \<in> set (map fst tree) \<and>
                  parentId s = parentId t \<and>
                  precedes (forInverter measurements inverter) s t \<and>
                  (x = s \<or> descendant (forInverter measurements inverter) s x) \<longrightarrow>
                  precedes (map fst tree) x t)"
proof -
  let ?ms = "forInverter measurements inverter"
  let ?roots = "childrenOf ?ms None"
  note d = assms(1)
  have roots: "\<forall>c \<in> set ?roots. rootedAt ?ms 0 c"
    by (auto simp: childrenOf_def rootedAt_def)
  have "walk stack ?ms None 0 [] \<noteq> None"
    using assms(2) roots by (intro walk_returns(1)[OF d]) auto
  then obtain tree where tree: "walk stack ?ms None 0 [] = Some tree"
    by blast
  let ?res = "map fst tree"
  from walk_preorder[OF tree] have pre: "preorder ?ms ?roots ?res"
    by simp
  from d have dms: "distinct ?ms" by (simp add: distinct_map)
  then have "distinct ?roots" by (simp add: childrenOf_def)
  from preorder_distinct[OF d pre this roots] have dres: "distinct ?res" .
  have mem: "m \<in> set ?res \<longleftrightarrow> m \<in> set ?ms \<and> rooted ?ms m" for m
  proof
    assume "m \<in> set ?res"
    from preorder_sound[OF pre this] obtain c k where c: "c \<in> set ?roots" "below ?ms k c m"
      by blast
    then have "rootedAt ?ms k m"
      by (auto simp: rootedAt_def childrenOf_def)
    then show "m \<in> set ?ms \<and> rooted ?ms m"
      by (auto simp: rooted_def dest: rootedAt_in_set)
  next
    assume "m \<in> set ?ms \<and> rooted ?ms m"
    then obtain k r where "r \<in> set ?ms" "parentId r = None" "below ?ms k r m"
      by (auto simp: rooted_def rootedAt_def)
    then have "r \<in> set ?roots" "below ?ms k r m"
      by (simp_all add: childrenOf_def)
    from preorder_complete[OF pre this] show "m \<in> set ?res" .
  qed
  have up: "precedes ?res a x" if "a \<in> set ?res" "descendant ?ms a x" for a x
  proof -
    from preorder_segment[OF pre that(1)] obtain as sub bs where
      seg: "?res = as @ a # sub @ bs" "preorder ?ms (childrenOf ?ms (Some (dcId a))) sub"
      by blast
    from that(2) obtain k c where "c \<in> set ?ms" "parentId c = Some (dcId a)" "below ?ms k c x"
      by (auto simp: descendant_def)
    then have "c \<in> set (childrenOf ?ms (Some (dcId a)))" "below ?ms k c x"
      by (simp_all add: childrenOf_def)
    from preorder_complete[OF seg(2) this] have "x \<in> set (sub @ bs)" by simp
    moreover from dres seg(1) have "a \<notin> set as"
      by (metis disjoint_iff distinct_append list.set_intros(1))
    ultimately show ?thesis
      unfolding seg(1) by (rule precedes_split[rotated])
  qed
  have sib: "precedes ?res x t"
    if st: "s \<in> set ?res" "t \<in> set ?res" "parentId s = parentId t" "precedes ?ms s t"
      and x: "x = s \<or> descendant ?ms s x" for s t x
  proof -
    have "\<exists>k. below ?ms k s x"
    proof (cases "x = s")
      case True
      then have "below ?ms 0 s x" by simp
      then show ?thesis ..
    next
      case False
      with x obtain j where "below ?ms (Suc j) s x"
        by (auto simp: descendant_def simp del: below.simps)
      then show ?thesis ..
    qed
    then obtain k where k: "below ?ms k s x" ..
    from st(1,2) have inms: "s \<in> set ?ms" "t \<in> set ?ms"
      using mem[of s] mem[of t] by blast+
    show ?thesis
    proof (cases "parentId s")
      case None
      with st(3,4) have "precedes ?roots s t"
        unfolding childrenOf_def by (intro precedes_filter) auto
      from preorder_family[OF pre dres this k] show ?thesis .
    next
      case (Some pid)
      from preorder_sound[OF pre st(1)] obtain c j where c: "c \<in> set ?roots" "below ?ms j c s"
        by blast
      have "j \<noteq> 0"
      proof
        assume "j = 0"
        with c(2) have "s = c" by simp
        with c(1) Some show False by (simp add: childrenOf_def)
      qed
      then obtain i where "j = Suc i" by (cases j) auto
      with c(2) obtain p where p: "below ?ms i c p" "parentId s = Some (dcId p)"
        by (auto simp: below_Suc_right simp del: below.simps)
      from preorder_complete[OF pre c(1) p(1)] have "p \<in> set ?res" .
      from preorder_segment[OF pre this] obtain as sub bs where
        seg: "?res = as @ p # sub @ bs" "preorder ?ms (childrenOf ?ms (Some (dcId p))) sub"
        by blast
      from st(3,4) p(2) have fam: "precedes (childrenOf ?ms (Some (dcId p))) s t"
        unfolding childrenOf_def by (intro precedes_filter) auto
      from dres seg(1) have dsub: "distinct sub" by (metis distinct.simps(2) distinct_append)
      from preorder_family[OF seg(2) dsub fam k] have ps: "precedes sub x t" .
      then have "x \<in> set sub" by (simp add: precedes_in_set)
      with dres seg(1) have "x \<notin> set (as @ [p])"
        by (metis Un_iff append.assoc append_Cons append_Nil disjoint_iff distinct_append set_append)
      from precedes_append_left[OF precedes_append_right[OF ps, of bs] this]
      show ?thesis by (simp add: seg(1))
    qed
  qed
  from tree dres mem up sib show ?thesis
    unfolding getOrderedDcTree_def by blast
qed

lemma dcForest_tree:
  "getOrderedDcTree 7 dcForest 1 =
     Some [(rootA, 0), (childA1, 1), (grandA11, 2), (childA2, 1), (rootB, 0)]"
  by code_simp

theorem getOrderedDcTree_preorder_witness:
  "getOrderedDcTree 7 dcForest 1 =
     Some [(rootA, 0), (childA1, 1), (grandA11, 2), (childA2, 1), (rootB, 0)] \<and>
   precedes [rootA, childA1, grandA11, childA2, rootB] grandA11 childA2 \<and>
   precedes [rootA, childA1, grandA11, childA2, rootB] rootA grandA11"
proof -
  let ?ms = "forInverter dcForest 1"
  have d: "distinct (map dcId ?ms)"
    by code_simp
  have l: "length ?ms < 7"
    by code_simp
  have ms: "?ms = [rootA, rootB, childA1, childA2, grandA11]"
    by code_simp
  have sibs: "parentId childA1 = parentId childA2" "precedes ?ms childA1 childA2"
    by code_simp+
  have g: "below ?ms (Suc 0) childA1 grandA11"
    unfolding ms by (simp add: grandA11_def childA1_def createDcMeasurement_def)
  then have desc1: "descendant ?ms childA1 grandA11"
    unfolding descendant_def ..
  have "below ?ms (Suc (Suc 0)) rootA grandA11"
    unfolding ms
    by (simp add: grandA11_def childA1_def rootA_def rootB_def childA2_def
        createDcMeasurement_def ascii_def)
  then have desc2: "descendant ?ms rootA grandA11"
    unfolding descendant_def ..
  from getOrderedDcTree_preorder [OF d l] obtain tree where
    t: "getOrderedDcTree 7 dcForest 1 = Some tree"
    and up: "\<forall>a x. a \<in> set (map fst tree) \<and> descendant ?ms a x \<longrightarrow>
               precedes (map fst tree) a x"
    and sib: "\<forall>s t x. s \<in> set (map fst tree) \<and> t \<in> set (map fst tree) \<and>
               parentId s = parentId t \<and> precedes ?ms s t \<and>
               (x = s \<or> descendant ?ms s x) \<longrightarrow> precedes (map fst tree) x t"
    by blast
  from t dcForest_tree have tree: "map fst tree = [rootA, childA1, grandA11, childA2, rootB]"
    by auto
  have a: "childA1 \<in> set (map fst tree)" "childA2 \<in> set (map fst tree)"
    "rootA \<in> set (map fst tree)"
    unfolding tree by simp_all
  from sib a sibs desc1 have "precedes (map fst tree) grandA11 childA2"
    by blast
  moreover from up a desc2 have "precedes (map fst tree) rootA grandA11"
    by blast
  ultimately show ?thesis
    using dcForest_tree unfolding tree by blast
qed

text \<open>
  Claim C2 as stated fails: a measurement of the inverter whose parent link leads to no
  measurement of that inverter (the parent was never there, or belongs to another inverter)
  is not returned.
\<close>

theorem getOrderedDcTree_orphan_counterexample:
  "inverterIndex orphan = 1 \<and> inverterIndex strayChild = 1 \<and>
   getOrderedDcTree 7 [rootA, orphan, otherRoot, strayChild] 1 = Some [(rootA, 0)]"
  by code_simp

section \<open>The forest invariants under the store operations\<close>

subsection \<open>Looking up a parent\<close>

lemma findFirst_Some: "findFirst p xs = Some x \<Longrightarrow> x \<in> set xs \<and> p x"
  by (induction xs) (auto split: if_splits)

lemma findFirst_None: "findFirst p xs = None \<longleftrightarrow> (\<forall>x \<in> set xs. \<not> p x)"
  by (induction xs) auto

lemma findFirst_append:
  "findFirst p (xs @ ys) = (case findFirst p xs of Some x \<Rightarrow> Some x | None \<Rightarrow> findFirst p ys)"
  by (induction xs) auto

lemma findFirst_filter:
  "(\<And>x. x \<in> set xs \<Longrightarrow> p x \<Longrightarrow> q x) \<Longrightarrow> findFirst p (filter q xs) = findFirst p xs"
  by (induction xs) auto

lemma findFirst_unique:
  "distinct (map f xs) \<Longrightarrow> x \<in> set xs \<Longrightarrow> findFirst (\<lambda>y. f y = f x) xs = Some x"
  by (induction xs) (auto simp: image_iff)

lemma parentOf_Some:
  "parentOf ms m = Some q \<Longrightarrow> q \<in> set ms \<and> parentId m = Some (dcId q)"
  by (auto simp: parentOf_def split: option.splits dest: findFirst_Some)

lemma parentOf_child:
  "distinct (map dcId ms) \<Longrightarrow> q \<in> set ms \<Longrightarrow> parentId m = Some (dcId q) \<Longrightarrow>
     parentOf ms m = Some q"
  by (simp add: parentOf_def findFirst_unique)

lemma forestInvD:
  assumes "forestInv ms"
  shows "distinct (map dcId ms)" and "\<And>m. m \<in> set ms \<Longrightarrow> dcId m \<noteq> []"
    and "\<And>m. m \<in> set ms \<Longrightarrow> parentId m \<noteq> None \<Longrightarrow> parentOf ms m \<noteq> None"
    and "\<And>m q. m \<in> set ms \<Longrightarrow> parentOf ms m = Some q \<Longrightarrow> inverterIndex q = inverterIndex m"
    and "\<And>m q g. m \<in> set ms \<Longrightarrow> parentOf ms m = Some q \<Longrightarrow> parentOf ms q = Some g \<Longrightarrow>
          parentId g = None"
proof -
  from assms have a: "idsUnique ms" and b: "parentsExist ms" and c: "sameInverterAsParent ms"
    and e: "depthAtMost3 ms"
    by (simp_all add: forestInv_def)
  from a show "distinct (map dcId ms)" by (simp add: idsUnique_def)
  from a show "\<And>m. m \<in> set ms \<Longrightarrow> dcId m \<noteq> []"
    unfolding idsUnique_def by (metis image_eqI set_map)
  from b show "\<And>m. m \<in> set ms \<Longrightarrow> parentId m \<noteq> None \<Longrightarrow> parentOf ms m \<noteq> None"
    unfolding parentsExist_def list_all_iff by fastforce
  show "inverterIndex q = inverterIndex m" if "m \<in> set ms" "parentOf ms m = Some q" for m q
  proof -
    from c that(1) have "case parentOf ms m of None \<Rightarrow> True
        | Some q \<Rightarrow> inverterIndex q = inverterIndex m"
      unfolding sameInverterAsParent_def list_all_iff by blast
    with that(2) show ?thesis by simp
  qed
  show "parentId g = None"
    if "m \<in> set ms" "parentOf ms m = Some q" "parentOf ms q = Some g" for m q g
  proof -
    from e that(1) have "case parentOf ms m of None \<Rightarrow> True
        | Some q \<Rightarrow> (case parentOf ms q of None \<Rightarrow> True | Some g \<Rightarrow> parentId g = None)"
      unfolding depthAtMost3_def list_all_iff by blast
    with that(2,3) show ?thesis by simp
  qed
qed

lemma forestInvI:
  assumes "distinct (map dcId ms)" and "\<And>m. m \<in> set ms \<Longrightarrow> dcId m \<noteq> []"
    and "\<And>m. m \<in> set ms \<Longrightarrow> parentId m \<noteq> None \<Longrightarrow> parentOf ms m \<noteq> None"
    and "\<And>m q. m \<in> set ms \<Longrightarrow> parentOf ms m = Some q \<Longrightarrow> inverterIndex q = inverterIndex m"
    and "\<And>m q g. m \<in> set ms \<Longrightarrow> parentOf ms m = Some q \<Longrightarrow> parentOf ms q = Some g \<Longrightarrow>
          parentId g = None"
  shows "forestInv ms"
proof -
  have "idsUnique ms"
    using assms(1,2) unfolding idsUnique_def by (metis imageE set_map)
  moreover have "parentsExist ms"
    using assms(3) unfolding parentsExist_def list_all_iff by fastforce
  moreover have "sameInverterAsParent ms"
    unfolding sameInverterAsParent_def list_all_iff
  proof
    fix m assume "m \<in> set ms"
    then show "case parentOf ms m of None \<Rightarrow> True | Some q \<Rightarrow> inverterIndex q = inverterIndex m"
      using assms(4)[of m] by (cases "parentOf ms m") simp_all
  qed
  moreover have "depthAtMost3 ms"
    unfolding depthAtMost3_def list_all_iff
  proof
    fix m assume m: "m \<in> set ms"
    show "case parentOf ms m of None \<Rightarrow> True
        | Some q \<Rightarrow> (case parentOf ms q of None \<Rightarrow> True | Some g \<Rightarrow> parentId g = None)"
    proof (cases "parentOf ms m")
      case None
      then show ?thesis by simp
    next
      case (Some q)
      then show ?thesis
        using assms(5)[OF m Some] by (cases "parentOf ms q") simp_all
    qed
  qed
  ultimately show ?thesis by (simp add: forestInv_def)
qed

subsection \<open>Regeneration gives roots only\<close>

lemma roots_forestInv:
  assumes "list_all unsetRoot ms" and "distinct (map dcId ms)" and "[] \<notin> set (map dcId ms)"
  shows "forestInv ms"
proof (rule forestInvI)
  have none: "parentOf ms m = None" if "m \<in> set ms" for m
    using assms(1) that by (auto simp: parentOf_def list_all_iff unsetRoot_def)
  show "distinct (map dcId ms)" by fact
  show "\<And>m. m \<in> set ms \<Longrightarrow> dcId m \<noteq> []" using assms(3) by (metis image_eqI set_map)
  show "\<And>m. m \<in> set ms \<Longrightarrow> parentId m \<noteq> None \<Longrightarrow> parentOf ms m \<noteq> None"
    using assms(1) by (auto simp: list_all_iff unsetRoot_def)
  show "\<And>m q. m \<in> set ms \<Longrightarrow> parentOf ms m = Some q \<Longrightarrow> inverterIndex q = inverterIndex m"
    using none by simp
  show "\<And>m q g. m \<in> set ms \<Longrightarrow> parentOf ms m = Some q \<Longrightarrow> parentOf ms q = Some g \<Longrightarrow>
      parentId g = None"
    using none by simp
qed

lemma generate_forestInv:
  assumes "generateDcMeasurements uuid configs = Some ms"
    and "freshIds uuid (stringTotal configs)"
  shows "forestInv ms"
proof (rule roots_forestInv)
  note g = assms(1)[unfolded generateDcMeasurements_def]
  show "list_all unsetRoot ms"
    by (rule generateFrom_unset[OF g])
  have ids: "map dcId ms = map uuid [0..<stringTotal configs]"
    using generateFrom_ids[OF g] generateFrom_length[OF g] by simp
  from assms(2) show "distinct (map dcId ms)" "[] \<notin> set (map dcId ms)"
    unfolding ids freshIds_def by simp_all
qed

lemma setInverterConfigs_forestInv:
  assumes "opAllowed insp (SetInverterConfigs uuid count defaultStrings)"
  shows "\<exists>insp'. applyOp (SetInverterConfigs uuid count defaultStrings) insp = Some insp' \<and>
           forestInv (dcMeasurements insp')"
proof -
  let ?configs = "newConfigs (nat count) defaultStrings (inverterConfigs insp)"
  from assms have small: "count < 4294967296" and fit: "stringCountsFit ?configs"
    and fresh: "freshIds uuid (stringTotal ?configs)"
    by simp_all
  from setInverterConfigs_returns[OF small fit, of uuid] obtain ms where
    ms: "generateDcMeasurements uuid ?configs = Some ms"
    and r: "setInverterConfigs uuid count defaultStrings insp =
      Returns (insp\<lparr>inverterConfigs := ?configs, dcMeasurements := ms,
                     inverterSerials := generateInverterSerials ?configs\<rparr>)"
    by blast
  from generate_forestInv[OF ms fresh] r show ?thesis by simp
qed

lemma updateInverterConfig_forestInv:
  assumes "forestInv (dcMeasurements insp)"
    and "opAllowed insp (UpdateInverterConfig uuid idx updates)"
  shows "\<exists>insp'. applyOp (UpdateInverterConfig uuid idx updates) insp = Some insp' \<and>
           forestInv (dcMeasurements insp')"
proof (cases "findFirst (\<lambda>c. index c = idx) (inverterConfigs insp)")
  case None
  with assms(1) show ?thesis by (simp add: updateInverterConfig_def)
next
  case (Some config)
  let ?configs = "updateFirst (\<lambda>c. index c = idx) (assignConfig updates) (inverterConfigs insp)"
  from assms(2) have fit: "stringCountsFit ?configs"
    and fresh: "freshIds uuid (stringTotal ?configs)"
    by simp_all
  from Some have found: "findFirst (\<lambda>c. index c = idx) (inverterConfigs insp) \<noteq> None"
    by simp
  from updateInverterConfig_returns[OF found fit, of uuid] obtain ms where
    ms: "generateDcMeasurements uuid ?configs = Some ms"
    and r: "updateInverterConfig uuid idx updates insp =
      Returns (insp\<lparr>inverterConfigs := ?configs, dcMeasurements := ms,
                     inverterSerials := generateInverterSerials ?configs\<rparr>)"
    by blast
  from generate_forestInv[OF ms fresh] r show ?thesis by simp
qed

subsection \<open>Updates that leave the links alone\<close>

lemma skeleton_eq:
  "skeleton a = skeleton b \<longleftrightarrow>
     dcId a = dcId b \<and> parentId a = parentId b \<and> inverterIndex a = inverterIndex b"
  by (simp add: skeleton_def)

lemma findFirst_skeleton:
  "map skeleton xs = map skeleton ys \<Longrightarrow>
     map_option skeleton (findFirst (\<lambda>q. dcId q = p) xs) =
     map_option skeleton (findFirst (\<lambda>q. dcId q = p) ys)"
proof (induction xs arbitrary: ys)
  case Nil
  then show ?case by simp
next
  case (Cons x xs)
  then obtain y ys' where ys: "ys = y # ys'" "skeleton x = skeleton y"
    "map skeleton xs = map skeleton ys'"
    by (cases ys) auto
  with Cons.IH[OF ys(3)] show ?case
    by (auto simp: skeleton_eq)
qed

lemma parentOf_skeleton:
  "map skeleton xs = map skeleton ys \<Longrightarrow> skeleton a = skeleton b \<Longrightarrow>
     map_option skeleton (parentOf xs a) = map_option skeleton (parentOf ys b)"
proof (cases "parentId a")
  case None
  assume "skeleton a = skeleton b"
  with None have "parentId b = None" by (simp add: skeleton_eq)
  with None show ?thesis by (simp add: parentOf_def)
next
  case (Some p)
  assume "skeleton a = skeleton b" and eq: "map skeleton xs = map skeleton ys"
  with Some have "parentId b = Some p" by (simp add: skeleton_eq)
  with Some findFirst_skeleton[OF eq, of p] show ?thesis by (simp add: parentOf_def)
qed

lemma skeleton_mem:
  "map skeleton xs = map skeleton ys \<Longrightarrow> a \<in> set xs \<Longrightarrow> \<exists>b \<in> set ys. skeleton a = skeleton b"
proof -
  assume eq: "map skeleton xs = map skeleton ys" and a: "a \<in> set xs"
  from a have "skeleton a \<in> set (map skeleton xs)" by simp
  with eq have "skeleton a \<in> set (map skeleton ys)" by simp
  then show ?thesis by auto
qed

lemma forestInv_skeleton:
  assumes eq: "map skeleton xs = map skeleton ys" and inv: "forestInv ys"
  shows "forestInv xs"
proof (rule forestInvI)
  note D = forestInvD[OF inv]
  have ids: "map dcId xs = map dcId ys"
  proof -
    have "map (fst \<circ> skeleton) xs = map (fst \<circ> skeleton) ys"
      using eq by (metis map_map)
    then show ?thesis by (simp add: skeleton_def o_def)
  qed
  show "distinct (map dcId xs)" using D(1) ids by simp
  show "dcId m \<noteq> []" if "m \<in> set xs" for m
  proof -
    from skeleton_mem[OF eq that] obtain b where b: "b \<in> set ys" "skeleton m = skeleton b"
      by blast
    from D(2)[OF b(1)] b(2) show ?thesis by (simp add: skeleton_eq)
  qed
  show "parentOf xs m \<noteq> None" if "m \<in> set xs" "parentId m \<noteq> None" for m
  proof -
    from skeleton_mem[OF eq that(1)] obtain b where b: "b \<in> set ys" "skeleton m = skeleton b"
      by blast
    with that(2) D(3)[of b] have "parentOf ys b \<noteq> None" by (simp add: skeleton_eq)
    with parentOf_skeleton[OF eq b(2)] show ?thesis by auto
  qed
  show "inverterIndex q = inverterIndex m" if "m \<in> set xs" "parentOf xs m = Some q" for m q
  proof -
    from skeleton_mem[OF eq that(1)] obtain b where b: "b \<in> set ys" "skeleton m = skeleton b"
      by blast
    from parentOf_skeleton[OF eq b(2)] that(2) obtain q' where
      q': "parentOf ys b = Some q'" "skeleton q = skeleton q'"
      by (cases "parentOf ys b") auto
    from D(4)[OF b(1) q'(1)] b(2) q'(2) show ?thesis by (simp add: skeleton_eq)
  qed
  show "parentId g = None"
    if "m \<in> set xs" "parentOf xs m = Some q" "parentOf xs q = Some g" for m q g
  proof -
    from skeleton_mem[OF eq that(1)] obtain b where b: "b \<in> set ys" "skeleton m = skeleton b"
      by blast
    from parentOf_skeleton[OF eq b(2)] that(2) obtain q' where
      q': "parentOf ys b = Some q'" "skeleton q = skeleton q'"
      by (cases "parentOf ys b") auto
    from parentOf_skeleton[OF eq q'(2)] that(3) obtain g' where
      g': "parentOf ys q' = Some g'" "skeleton g = skeleton g'"
      by (cases "parentOf ys q'") auto
    from D(5)[OF b(1) q'(1) g'(1)] g'(2) show ?thesis by (simp add: skeleton_eq)
  qed
qed

lemma skeleton_updateFirst:
  "(\<And>x. skeleton (f x) = skeleton x) \<Longrightarrow> map skeleton (updateFirst p f xs) = map skeleton xs"
  by (induction xs) auto

lemma skeleton_assignDc: "\<not> structural u \<Longrightarrow> skeleton (assignDc u m) = skeleton m"
  by (simp add: structural_def assignDc_def skeleton_def orKeep_def)

lemma updateDcMeasurement_forestInv:
  assumes "forestInv (dcMeasurements insp)" and "\<not> structural updates"
  shows "forestInv (dcMeasurements (updateDcMeasurement ident updates insp))"
proof -
  let ?ms = "dcMeasurements insp"
  have "map skeleton (updateFirst (\<lambda>d. dcId d = ident) (assignDc updates) ?ms) = map skeleton ?ms"
    by (rule skeleton_updateFirst) (rule skeleton_assignDc[OF assms(2)])
  from forestInv_skeleton[OF this assms(1)] show ?thesis
    by (simp add: updateDcMeasurement_def)
qed

subsection \<open>Adding a measurement at the end\<close>

lemma parentOf_append_old:
  assumes "forestInv ms" and "m \<in> set ms"
  shows "parentOf (ms @ [c]) m = parentOf ms m"
proof (cases "parentId m")
  case None
  then show ?thesis by (simp add: parentOf_def)
next
  case (Some p)
  with forestInvD(3)[OF assms] obtain q where "parentOf ms m = Some q"
    by auto
  with Some show ?thesis
    by (simp add: parentOf_def findFirst_append)
qed

lemma append_forestInv:
  assumes inv: "forestInv ms"
    and fresh: "freshId ms (dcId c)"
    and link: "parentId c = None \<or>
       (\<exists>p \<in> set ms. parentId c = Some (dcId p) \<and> inverterIndex p = inverterIndex c \<and>
          (\<forall>q. parentOf ms p = Some q \<longrightarrow> parentId q = None))"
  shows "forestInv (ms @ [c])"
proof (rule forestInvI)
  note D = forestInvD[OF inv]
  note old = parentOf_append_old[OF inv]
  have new: "parentOf (ms @ [c]) c = Some p"
    if "p \<in> set ms" "parentId c = Some (dcId p)" for p
    using that D(1) by (simp add: parentOf_def findFirst_append findFirst_unique)
  have newNone: "parentOf (ms @ [c]) c = None" if "parentId c = None"
    using that by (simp add: parentOf_def)
  show "distinct (map dcId (ms @ [c]))"
    using D(1) fresh by (simp add: freshId_def)
  show "dcId m \<noteq> []" if "m \<in> set (ms @ [c])" for m
    using that D(2) fresh by (auto simp: freshId_def)
  show "parentOf (ms @ [c]) m \<noteq> None" if "m \<in> set (ms @ [c])" "parentId m \<noteq> None" for m
  proof (cases "m \<in> set ms")
    case True
    with D(3)[OF True that(2)] show ?thesis by (simp add: old)
  next
    case False
    with that(1) have "m = c" by simp
    with that(2) link new show ?thesis by auto
  qed
  show "inverterIndex q = inverterIndex m"
    if "m \<in> set (ms @ [c])" "parentOf (ms @ [c]) m = Some q" for m q
  proof (cases "m \<in> set ms")
    case True
    with that(2) D(4)[OF True] show ?thesis by (simp add: old)
  next
    case False
    with that(1) have m: "m = c" by simp
    with that(2) newNone have "parentId c \<noteq> None" by auto
    with link obtain p where p: "p \<in> set ms" "parentId c = Some (dcId p)"
      "inverterIndex p = inverterIndex c"
      by blast
    from new[OF p(1,2)] that(2) m p(3) show ?thesis by simp
  qed
  show "parentId g = None"
    if "m \<in> set (ms @ [c])" "parentOf (ms @ [c]) m = Some q" "parentOf (ms @ [c]) q = Some g"
    for m q g
  proof (cases "m \<in> set ms")
    case True
    with that(2) have q: "parentOf ms m = Some q" by (simp add: old)
    then have "q \<in> set ms" by (simp add: parentOf_Some)
    with that(3) have "parentOf ms q = Some g" by (simp add: old)
    from D(5)[OF True q this] show ?thesis .
  next
    case False
    with that(1) have m: "m = c" by simp
    with that(2) newNone have "parentId c \<noteq> None" by auto
    with link obtain p where p: "p \<in> set ms" "parentId c = Some (dcId p)"
      "\<forall>q. parentOf ms p = Some q \<longrightarrow> parentId q = None"
      by blast
    from new[OF p(1,2)] that(2) m have "q = p" by simp
    with that(3) p(1) have pg: "parentOf ms p = Some g" by (simp add: old)
    with p(3) show ?thesis by blast
  qed
qed

lemma addDcString_forestInv:
  assumes "forestInv (dcMeasurements insp)" and "freshId (dcMeasurements insp) uid"
  shows "forestInv (dcMeasurements (addDcString uid inverter insp))"
proof -
  let ?c = "createDcMeasurement uid inverter
      (nextTopLevelLabel (dcMeasurements insp) inverter) None"
  have "forestInv (dcMeasurements insp @ [?c])"
    using assms by (intro append_forestInv) (simp_all add: createDcMeasurement_def)
  then show ?thesis by (simp add: addDcString_def Let_def)
qed

subsection \<open>The nesting loop ends, and counts the parent links\<close>

lemma nestingDepth_step:
  assumes inv: "forestInv ms" and m: "m \<in> set ms"
  shows "nestingDepth ms m d =
           (case parentOf ms m of None \<Rightarrow> Some d | Some q \<Rightarrow> nestingDepth ms q (d + 1))"
proof (cases "parentId m")
  case None
  then show ?thesis
    by (subst nestingDepth.simps) (simp add: truthy_def parentOf_def)
next
  case (Some p)
  with forestInvD(3)[OF inv m] obtain q where q: "parentOf ms m = Some q"
    by auto
  with Some have f: "findFirst (\<lambda>x. dcId x = p) ms = Some q"
    by (simp add: parentOf_def)
  then have "q \<in> set ms" "dcId q = p"
    by (auto dest: findFirst_Some)
  with forestInvD(2)[OF inv] have "p \<noteq> []" by auto
  with Some f q show ?thesis
    by (subst nestingDepth.simps) (simp add: truthy_def)
qed

lemma nestingDepth_value:
  assumes inv: "forestInv ms" and p: "p \<in> set ms"
  shows "nestingDepth ms p 0 =
           Some (case parentOf ms p of None \<Rightarrow> 0
                 | Some q \<Rightarrow> (case parentOf ms q of None \<Rightarrow> 1 | Some g \<Rightarrow> 2))"
proof (cases "parentOf ms p")
  case None
  then show ?thesis by (simp add: nestingDepth_step[OF inv p])
next
  case (Some q)
  then have q: "q \<in> set ms" by (simp add: parentOf_Some)
  show ?thesis
  proof (cases "parentOf ms q")
    case None
    with Some show ?thesis
      by (simp add: nestingDepth_step[OF inv p] nestingDepth_step[OF inv q])
  next
    case g: (Some g)
    then have gs: "g \<in> set ms" by (simp add: parentOf_Some)
    from forestInvD(5)[OF inv p Some g] have "parentOf ms g = None"
      by (simp add: parentOf_def)
    with Some g show ?thesis
      by (simp add: nestingDepth_step[OF inv p] nestingDepth_step[OF inv q]
          nestingDepth_step[OF inv gs])
  qed
qed

lemma addDcSubstring_forestInv:
  assumes inv: "forestInv (dcMeasurements insp)" and fresh: "freshId (dcMeasurements insp) uid"
  shows "\<exists>insp'. addDcSubstring uid parent insp = Some insp' \<and> forestInv (dcMeasurements insp')"
proof (cases "findFirst (\<lambda>m. dcId m = parent) (dcMeasurements insp)")
  case None
  with inv show ?thesis by (simp add: addDcSubstring_def)
next
  case (Some p)
  let ?ms = "dcMeasurements insp"
  from Some have p: "p \<in> set ?ms" "dcId p = parent"
    by (auto dest: findFirst_Some)
  note depth = nestingDepth_value[OF inv p(1)]
  let ?c = "createDcMeasurement uid (inverterIndex p)
      (nextChildLabel ?ms parent (stringLabel p)) (Some parent)"
  show ?thesis
  proof (cases "\<exists>q g. parentOf ?ms p = Some q \<and> parentOf ?ms q = Some g")
    case True
    with Some depth inv show ?thesis
      by (auto simp: addDcSubstring_def)
  next
    case False
    then have top: "\<forall>q. parentOf ?ms p = Some q \<longrightarrow> parentId q = None"
      using forestInvD(3)[OF inv] by (metis parentOf_Some not_None_eq)
    from False have "(case parentOf ?ms p of None \<Rightarrow> 0
        | Some q \<Rightarrow> (case parentOf ?ms q of None \<Rightarrow> 1 | Some g \<Rightarrow> 2)) < (2::nat)"
      by (auto split: option.splits)
    with Some depth have run: "addDcSubstring uid parent insp =
        Some (insp\<lparr>dcMeasurements := ?ms @ [?c]\<rparr>)"
      by (simp add: addDcSubstring_def Let_def)
    have "forestInv (?ms @ [?c])"
    proof (rule append_forestInv[OF inv])
      show "freshId ?ms (dcId ?c)"
        using fresh by (simp add: createDcMeasurement_def)
      show "parentId ?c = None \<or>
         (\<exists>p \<in> set ?ms. parentId ?c = Some (dcId p) \<and> inverterIndex p = inverterIndex ?c \<and>
            (\<forall>q. parentOf ?ms p = Some q \<longrightarrow> parentId q = None))"
        using p top by (auto simp: createDcMeasurement_def)
    qed
    with run show ?thesis by simp
  qed
qed

lemma addDcSubstring_refuses:
  assumes inv: "forestInv (dcMeasurements insp)"
    and "findFirst (\<lambda>m. dcId m = parent) (dcMeasurements insp) = Some p"
    and "parentOf (dcMeasurements insp) p = Some q"
    and "parentOf (dcMeasurements insp) q \<noteq> None"
  shows "addDcSubstring uid parent insp = Some insp"
proof -
  from assms(2) have p: "p \<in> set (dcMeasurements insp)"
    by (auto dest: findFirst_Some)
  from nestingDepth_value[OF inv p] assms(3,4)
  have "nestingDepth (dcMeasurements insp) p 0 = Some 2"
    by auto
  with assms(2) show ?thesis
    by (simp add: addDcSubstring_def)
qed

subsection \<open>Collecting the descendants: it ends within three calls\<close>

lemma descendEach_no_child:
  "(\<forall>m \<in> set xs. parentId m \<noteq> Some p) \<Longrightarrow> descendEach f ms p xs acc = Some acc"
  by (induction xs arbitrary: acc) simp_all

lemma descendEach_returns:
  "(\<forall>m \<in> set xs. parentId m = Some p \<longrightarrow> getDescendantIds f ms (dcId m) \<noteq> None) \<Longrightarrow>
     descendEach f ms p xs acc \<noteq> None"
proof (induction xs arbitrary: acc)
  case Nil
  show ?case by simp
next
  case (Cons m xs)
  show ?case
  proof (cases "parentId m = Some p")
    case True
    with Cons.prems obtain sub where "getDescendantIds f ms (dcId m) = Some sub"
      by auto
    with True Cons.IH Cons.prems show ?thesis by simp
  next
    case False
    with Cons.IH Cons.prems show ?thesis by simp
  qed
qed

lemma grandchild_childless:
  assumes inv: "forestInv ms" and x: "x \<in> set ms"
    and up: "parentOf ms x = Some q" "parentOf ms q \<noteq> None"
    and m: "m \<in> set ms"
  shows "parentId m \<noteq> Some (dcId x)"
proof
  assume "parentId m = Some (dcId x)"
  with forestInvD(1)[OF inv] x have "parentOf ms m = Some x"
    by (simp add: parentOf_child)
  from forestInvD(5)[OF inv m this up(1)] up(2) show False
    by (simp add: parentOf_def)
qed

lemma getDescendantIds_returns:
  assumes inv: "forestInv ms"
  shows "getDescendantIds (Suc (Suc (Suc f))) ms ident \<noteq> None"
proof -
  have leaf: "getDescendantIds (Suc f) ms (dcId c2) \<noteq> None"
    if "c1 \<in> set ms" "parentId c1 = Some ident" "c2 \<in> set ms" "parentId c2 = Some (dcId c1)"
    for c1 c2
  proof -
    from that(1,2) forestInvD(3)[OF inv] have "parentOf ms c1 \<noteq> None" by auto
    moreover from that(1,4) forestInvD(1)[OF inv] have "parentOf ms c2 = Some c1"
      by (simp add: parentOf_child)
    ultimately have "\<forall>m \<in> set ms. parentId m \<noteq> Some (dcId c2)"
      using grandchild_childless[OF inv that(3)] by blast
    then show ?thesis by (simp add: descendEach_no_child)
  qed
  have child: "getDescendantIds (Suc (Suc f)) ms (dcId c1) \<noteq> None"
    if "c1 \<in> set ms" "parentId c1 = Some ident" for c1
    using leaf[OF that] by (simp add: descendEach_returns)
  show ?thesis
    using child by (simp add: descendEach_returns)
qed

subsection \<open>The collected identifiers are closed under children\<close>

lemma getDescendantIds_closed:
  "getDescendantIds f ms p = Some ds \<Longrightarrow>
     (\<forall>m \<in> set ms. parentId m = Some p \<longrightarrow> dcId m \<in> set ds) \<and> downClosed ms (set ds)"
  and descendEach_closed:
  "descendEach f ms p xs acc = Some r \<Longrightarrow>
     set acc \<subseteq> set r \<and> (\<forall>m \<in> set xs. parentId m = Some p \<longrightarrow> dcId m \<in> set r) \<and>
     (downClosed ms (set acc) \<longrightarrow> downClosed ms (set r))"
proof (induction f ms p and f ms p xs acc arbitrary: ds and r
    rule: getDescendantIds_descendEach.induct)
  case (1 measurements parent)
  then show ?case by simp
next
  case (2 stack measurements parent)
  from "2.prems" have "descendEach stack measurements parent measurements [] = Some ds"
    by simp
  from "2.IH"[OF this] show ?case
    by (simp add: downClosed_def)
next
  case (3 stack measurements parent ids)
  then show ?case by simp
next
  case (4 stack measurements parent m ms ids)
  show ?case
  proof (cases "parentId m = Some parent")
    case True
    with "4.prems" obtain sub where
      sub: "getDescendantIds stack measurements (dcId m) = Some sub"
      and rest: "descendEach stack measurements parent ms (ids @ [dcId m] @ sub) = Some r"
      by (auto split: option.splits)
    from "4.IH"(1)[OF True sub] have kids:
      "\<forall>c \<in> set measurements. parentId c = Some (dcId m) \<longrightarrow> dcId c \<in> set sub"
      and csub: "downClosed measurements (set sub)"
      by blast+
    from "4.IH"(2)[OF True sub rest] have r:
      "set (ids @ [dcId m] @ sub) \<subseteq> set r"
      "\<forall>x \<in> set ms. parentId x = Some parent \<longrightarrow> dcId x \<in> set r"
      "downClosed measurements (set (ids @ [dcId m] @ sub)) \<longrightarrow> downClosed measurements (set r)"
      by blast+
    have "downClosed measurements (set (ids @ [dcId m] @ sub))"
      if "downClosed measurements (set ids)"
      using that kids csub unfolding downClosed_def by auto
    with r show ?thesis by auto
  next
    case False
    with "4.prems" have "descendEach stack measurements parent ms ids = Some r"
      by simp
    from "4.IH"(3)[OF False this] False show ?thesis by auto
  qed
qed

subsection \<open>Removing a measurement with its descendants\<close>

lemma filter_forestInv:
  assumes inv: "forestInv ms" and closed: "downClosed ms R"
  shows "forestInv (filter (\<lambda>m. dcId m \<notin> R) ms)"
proof (rule forestInvI)
  let ?ms' = "filter (\<lambda>m. dcId m \<notin> R) ms"
  note D = forestInvD[OF inv]
  have keep: "parentOf ?ms' m = parentOf ms m" if "m \<in> set ?ms'" for m
  proof (cases "parentId m")
    case None
    then show ?thesis by (simp add: parentOf_def)
  next
    case (Some x)
    from that have m: "m \<in> set ms" "dcId m \<notin> R" by simp_all
    with closed Some have "x \<notin> R"
      unfolding downClosed_def by blast
    then have "findFirst (\<lambda>q. dcId q = x) ?ms' = findFirst (\<lambda>q. dcId q = x) ms"
      by (intro findFirst_filter) simp
    with Some show ?thesis by (simp add: parentOf_def)
  qed
  have stays: "q \<in> set ?ms'" if "m \<in> set ?ms'" "parentOf ?ms' m = Some q" for m q
    using that by (auto dest: parentOf_Some)
  show "distinct (map dcId ?ms')"
    using D(1) by (rule distinct_map_filter)
  show "dcId m \<noteq> []" if "m \<in> set ?ms'" for m
    using that D(2) by simp
  show "parentOf ?ms' m \<noteq> None" if "m \<in> set ?ms'" "parentId m \<noteq> None" for m
    using that D(3)[of m] by (simp add: keep)
  show "inverterIndex q = inverterIndex m" if "m \<in> set ?ms'" "parentOf ?ms' m = Some q" for m q
    using that D(4)[of m q] by (simp add: keep)
  show "parentId g = None"
    if "m \<in> set ?ms'" "parentOf ?ms' m = Some q" "parentOf ?ms' q = Some g" for m q g
  proof -
    from stays[OF that(1,2)] that(3) have g: "parentOf ms q = Some g" by (simp add: keep)
    from that(1,2) have q: "parentOf ms m = Some q" by (simp add: keep)
    from that(1) have "m \<in> set ms" by simp
    from D(5)[OF this q g] show ?thesis .
  qed
qed

lemma removeDcMeasurement_forestInv:
  assumes inv: "forestInv (dcMeasurements insp)" and stack: "3 \<le> stack"
  shows "\<exists>insp'. removeDcMeasurement stack ident insp = Some insp' \<and>
           forestInv (dcMeasurements insp')"
proof -
  let ?ms = "dcMeasurements insp"
  from stack obtain f where "stack = Suc (Suc (Suc f))"
    by (metis Suc_le_D Suc_le_mono numeral_3_eq_3)
  with getDescendantIds_returns[OF inv] obtain ds where
    ds: "getDescendantIds stack ?ms ident = Some ds"
    by blast
  from getDescendantIds_closed[OF ds] have "downClosed ?ms (set (ident # ds))"
    unfolding downClosed_def by auto
  from filter_forestInv[OF inv this] ds show ?thesis
    by (simp add: removeDcMeasurement_def Let_def)
qed

text \<open>
  Claim C6 (as amended). Let the measurements be a forest: unique non-empty identifiers,
  every parent link leading to a measurement, a measurement and its parent in the same
  inverter, and no chain of parent links longer than three (root, child, grandchild). Then
  \<open>setInverterConfigs\<close> and \<open>updateInverterConfig\<close>, when the inverter count and the
  string counts of the new configurations are array lengths (below \<open>2\<^sup>3\<^sup>2\<close>),
  \<open>addDcString\<close>, \<open>addDcSubstring\<close> and \<open>removeDcMeasurement\<close> return and leave a forest
  again, and so does \<open>updateDcMeasurement\<close> when the update assigns neither the identifier
  nor the parent link nor the inverter (identifiers drawn by an operation being new). In
  particular \<open>addDcSubstring\<close> changes nothing when the parent is already a grandchild.
\<close>

theorem store_ops_preserve_forest:
  assumes "forestInv (dcMeasurements insp)" and "opAllowed insp op"
  shows "(\<exists>insp'. applyOp op insp = Some insp' \<and>
            sameInverterAsParent (dcMeasurements insp') \<and>
            depthAtMost3 (dcMeasurements insp') \<and>
            forestInv (dcMeasurements insp')) \<and>
         (\<forall>uid parent p q.
            findFirst (\<lambda>m. dcId m = parent) (dcMeasurements insp) = Some p \<and>
            parentOf (dcMeasurements insp) p = Some q \<and>
            parentOf (dcMeasurements insp) q \<noteq> None \<longrightarrow>
            addDcSubstring uid parent insp = Some insp)"
proof -
  have "\<exists>insp'. applyOp op insp = Some insp' \<and> forestInv (dcMeasurements insp')"
  proof (cases op)
    case (SetInverterConfigs uuid count defaultStrings)
    with assms(2) show ?thesis
      using setInverterConfigs_forestInv[of insp uuid count defaultStrings] by blast
  next
    case (UpdateInverterConfig uuid idx updates)
    with assms show ?thesis
      using updateInverterConfig_forestInv[of insp uuid idx updates] by blast
  next
    case (UpdateDcMeasurement ident updates)
    with assms show ?thesis
      using updateDcMeasurement_forestInv[of insp updates ident] by simp
  next
    case (AddDcString uid inverter)
    with assms show ?thesis
      using addDcString_forestInv[of insp uid inverter] by simp
  next
    case (AddDcSubstring uid parent)
    with assms show ?thesis
      using addDcSubstring_forestInv[of insp uid parent] by simp
  next
    case (RemoveDcMeasurement stack ident)
    with assms show ?thesis
      using removeDcMeasurement_forestInv[of insp stack ident] by simp
  qed
  moreover have "addDcSubstring uid parent insp = Some insp"
    if "findFirst (\<lambda>m. dcId m = parent) (dcMeasurements insp) = Some p"
      "parentOf (dcMeasurements insp) p = Some q" "parentOf (dcMeasurements insp) q \<noteq> None"
    for uid parent p q
    using addDcSubstring_refuses[OF assms(1) that] .
  ultimately show ?thesis
    unfolding forestInv_def by blast
qed

theorem store_ops_preserve_forest_witness:
  "forestInv (dcMeasurements deepInspection) \<and>
   (\<exists>insp'. applyOp (SetInverterConfigs sampleUuid 2 2) deepInspection = Some insp' \<and>
      forestInv (dcMeasurements insp')) \<and>
   (\<exists>insp'. applyOp (AddDcSubstring (ascii ''n'') (ascii ''b'')) deepInspection = Some insp' \<and>
      forestInv (dcMeasurements insp')) \<and>
   (\<exists>insp'. applyOp (RemoveDcMeasurement 3 (ascii ''a'')) deepInspection = Some insp' \<and>
      forestInv (dcMeasurements insp')) \<and>
   addDcSubstring (ascii ''n'') (ascii ''f'') deepInspection = Some deepInspection"
proof -
  have inv: "forestInv (dcMeasurements deepInspection)"
    by code_simp
  have ok: "opAllowed deepInspection (AddDcSubstring (ascii ''n'') (ascii ''b''))"
    "opAllowed deepInspection (RemoveDcMeasurement 3 (ascii ''a''))"
    "opAllowed deepInspection (SetInverterConfigs sampleUuid 2 2)"
    by code_simp+
  have deep: "findFirst (\<lambda>m. dcId m = ascii ''f'') (dcMeasurements deepInspection) = Some grandA11"
    "parentOf (dcMeasurements deepInspection) grandA11 = Some childA1"
    "parentOf (dcMeasurements deepInspection) childA1 \<noteq> None"
    by code_simp+
  from store_ops_preserve_forest [OF inv ok(1)] store_ops_preserve_forest [OF inv ok(2)]
    store_ops_preserve_forest [OF inv ok(3)] inv deep
  show ?thesis by blast
qed

text \<open>
  Claim C6 as stated fails for \<open>updateDcMeasurement\<close>, which assigns whatever fields it
  is given: moving a child to another inverter separates it from its parent, and giving a
  root a parent makes a chain of four.
\<close>

theorem updateDcMeasurement_breaks_forest_counterexample:
  "forestInv (dcMeasurements deepInspection) \<and>
   \<not> sameInverterAsParent (dcMeasurements
        (updateDcMeasurement (ascii ''b'') (noUpdates\<lparr>newInverterIndex := Some 2\<rparr>)
           deepInspection)) \<and>
   \<not> depthAtMost3 (dcMeasurements
        (updateDcMeasurement (ascii ''a'') (noUpdates\<lparr>newParentId := Some (Some (ascii ''e''))\<rparr>)
           deepInspection))"
  by code_simp

end
